theory Spec2Isabelle
  imports Complex_Main "HOL-Library.AList"
begin

section \<open>The schema graph of DatabaseView.tsx\<close>

text \<open>
  A shallow embedding of the force-directed layout \<open>useForceLayout\<close> and of the port
  selection \<open>edgePorts\<close> of \<^verbatim>\<open>frontend/src/views/DatabaseView.tsx\<close>.

  JavaScript numbers are modelled as real numbers: \<open>+\<close>, \<open>-\<close>, \<open>*\<close>, \<open>/\<close>,
  \<open>Math.sqrt\<close>, \<open>Math.cos\<close>, \<open>Math.sin\<close> and \<open>Math.PI\<close> are the exact operations of
  \<^typ>\<open>real\<close>, and the literals \<open>0.04\<close>, \<open>0.82\<close> and \<open>1.6\<close> are the decimal fractions
  they denote. Rounding, infinities and NaN of IEEE doubles are outside this model.
\<close>

subsection \<open>Data\<close>

text \<open>\<^verbatim>\<open>interface LineageNode { id; label; row_count; service }\<close>\<close>

record LineageNode =
  node_id :: string
  node_label :: string
  node_row_count :: real
  node_service :: string

text \<open>
  \<^verbatim>\<open>interface LineageEdge { source; target; source_column; target_column; service }\<close>,
  with the field \<open>inferred\<close> that the renderer reads through \<^verbatim>\<open>(e as any).inferred === true\<close>.
\<close>

record LineageEdge =
  edge_source :: string
  edge_target :: string
  edge_source_column :: string
  edge_target_column :: string
  edge_service :: string
  edge_inferred :: bool

text \<open>\<^verbatim>\<open>{ x, y }\<close> and its extension \<^verbatim>\<open>{ x, y, vx, vy }\<close>.\<close>

record point =
  px :: real
  py :: real

record particle = point +
  vx :: real
  vy :: real

text \<open>
  \<^verbatim>\<open>Record<string, ...>\<close>: a JavaScript object whose keys all contain a colon, so none of
  them is an array index and \<open>Object.keys\<close> lists them in insertion order. It is an
  association list; \<open>pos[k] = v\<close> is \<^const>\<open>AList.update\<close> (overwrite in place, or append),
  reading \<open>pos[k]\<close> is \<^const>\<open>map_of\<close>, and mutating the object stored under \<open>k\<close> is
  \<^const>\<open>AList.map_entry\<close>.
\<close>

type_synonym positions = "(string \<times> particle) list"

subsection \<open>Constants\<close>

definition CARD_W :: real where "CARD_W = 160"
definition CARD_H :: real where "CARD_H = 60"
definition REPEL :: real where "REPEL = 18000"
definition ATTRACT :: real where "ATTRACT = 4 / 100"
definition DAMPING :: real where "DAMPING = 82 / 100"
definition ITERATIONS :: nat where "ITERATIONS = 200"
definition GAP :: real where "GAP = 220"
definition PAD :: real where "PAD = 40"

subsection \<open>useForceLayout\<close>

text \<open>The template strings \<^verbatim>\<open>`${n.service}:${n.id}`\<close> and \<^verbatim>\<open>`${e.service}:${e.source}`\<close>.\<close>

definition composite_key :: "string \<Rightarrow> string \<Rightarrow> string" where
  "composite_key service name = service @ '':'' @ name"

definition node_key :: "LineageNode \<Rightarrow> string" where
  "node_key n = composite_key (node_service n) (node_id n)"

definition source_key :: "LineageEdge \<Rightarrow> string" where
  "source_key e = composite_key (edge_service e) (edge_source e)"

definition target_key :: "LineageEdge \<Rightarrow> string" where
  "target_key e = composite_key (edge_service e) (edge_target e)"

text \<open>The seed of the node at index \<open>i\<close> of \<open>len\<close> nodes (lines 43 and 49 to 55).\<close>

definition seed_particle :: "nat \<Rightarrow> nat \<Rightarrow> particle" where
  "seed_particle len i =
     (let COLS = \<lceil>sqrt (real len)\<rceil>;
          angle = (2 * pi * real i) / real len;
          r = GAP * max 1 (real_of_int COLS / 2)
      in \<lparr>px = 400 + r * cos angle, py = 300 + r * sin angle, vx = 0, vy = 0\<rparr>)"

text \<open>\<^verbatim>\<open>nodes.forEach((n, i) => { pos[key] = {...} })\<close> on the empty object.\<close>

definition seed :: "LineageNode list \<Rightarrow> positions" where
  "seed nodes =
     fold (\<lambda>(n, i) pos. AList.update (node_key n) (seed_particle (length nodes) i) pos)
       (zip nodes [0..<length nodes]) []"

text \<open>
  The body of the inner repulsion loop. \<open>repel_force pa pb\<close> is the pair \<open>(fx, fy)\<close> that
  lines 66 to 70 compute from the two objects; \<open>repel ka kb\<close> is the whole body for the keys
  \<open>ka = keys[a]\<close> and \<open>kb = keys[b]\<close>. Both keys come from \<open>Object.keys(pos)\<close>, so both
  reads succeed in the source; the model leaves the objects alone where a read finds
  nothing.
\<close>

definition repel_force :: "particle \<Rightarrow> particle \<Rightarrow> real \<times> real" where
  "repel_force pa pb =
     (let dx = px pb - px pa; dy = py pb - py pa;
          dist2 = max (dx * dx + dy * dy) 1;
          dist = sqrt dist2;
          force = REPEL / dist2
      in ((dx / dist) * force, (dy / dist) * force))"

definition repel :: "string \<Rightarrow> string \<Rightarrow> positions \<Rightarrow> positions" where
  "repel ka kb pos =
     (case (map_of pos ka, map_of pos kb) of
        (Some pa, Some pb) \<Rightarrow>
          (let (fx, fy) = repel_force pa pb
           in AList.map_entry kb (\<lambda>p. p\<lparr>vx := vx p + fx, vy := vy p + fy\<rparr>)
                (AList.map_entry ka (\<lambda>p. p\<lparr>vx := vx p - fx, vy := vy p - fy\<rparr>) pos))
      | _ \<Rightarrow> pos)"

text \<open>\<^verbatim>\<open>for (a = 0; a < keys.length; a++) for (b = a + 1; b < keys.length; b++)\<close>\<close>

definition repulsion :: "string list \<Rightarrow> positions \<Rightarrow> positions" where
  "repulsion keys pos =
     fold (\<lambda>a. fold (\<lambda>b. repel (keys ! a) (keys ! b)) [Suc a..<length keys])
       [0..<length keys] pos"

text \<open>
  The callback of \<^verbatim>\<open>edges.forEach\<close>. \<open>spring_force ps pt\<close> is the pair \<open>(fx, fy)\<close> of lines
  81 to 85, where \<^verbatim>\<open>Math.sqrt(dx * dx + dy * dy) || 1\<close> replaces a distance of zero by one;
  \<open>spring sk tk\<close> is the callback for an edge with the keys \<open>sk\<close> and \<open>tk\<close>, which returns
  at once when an endpoint is missing. The two endpoints are updated one after the other
  through the store, so an edge from a node to itself updates the same object twice, as
  the source does.
\<close>

definition spring_force :: "particle \<Rightarrow> particle \<Rightarrow> real \<times> real" where
  "spring_force ps pt =
     (let dx = px pt - px ps; dy = py pt - py ps;
          d = sqrt (dx * dx + dy * dy);
          dist = (if d = 0 then 1 else d);
          ideal = GAP * (16 / 10);
          force = (dist - ideal) * ATTRACT
      in ((dx / dist) * force, (dy / dist) * force))"

definition spring :: "string \<Rightarrow> string \<Rightarrow> positions \<Rightarrow> positions" where
  "spring sk tk pos =
     (case (map_of pos sk, map_of pos tk) of
        (Some ps, Some pt) \<Rightarrow>
          (let (fx, fy) = spring_force ps pt
           in AList.map_entry tk (\<lambda>p. p\<lparr>vx := vx p - fx, vy := vy p - fy\<rparr>)
                (AList.map_entry sk (\<lambda>p. p\<lparr>vx := vx p + fx, vy := vy p + fy\<rparr>) pos))
      | _ \<Rightarrow> pos)"

definition attract :: "LineageEdge \<Rightarrow> positions \<Rightarrow> positions" where
  "attract e pos = spring (source_key e) (target_key e) pos"

definition attraction :: "LineageEdge list \<Rightarrow> positions \<Rightarrow> positions" where
  "attraction edges pos = fold attract edges pos"

text \<open>\<^verbatim>\<open>keys.forEach(k => { p.x += p.vx; p.y += p.vy; p.vx *= DAMPING; p.vy *= DAMPING })\<close>\<close>

definition move :: "particle \<Rightarrow> particle" where
  "move p = \<lparr>px = px p + vx p, py = py p + vy p, vx = vx p * DAMPING, vy = vy p * DAMPING\<rparr>"

definition integrate :: "string list \<Rightarrow> positions \<Rightarrow> positions" where
  "integrate keys pos = fold (\<lambda>k. AList.map_entry k move) keys pos"

text \<open>One pass of the loop over \<open>iter\<close>.\<close>

definition iteration :: "LineageEdge list \<Rightarrow> positions \<Rightarrow> positions" where
  "iteration edges pos =
     (let keys = map fst pos
      in integrate keys (attraction edges (repulsion keys pos)))"

definition simulate :: "LineageEdge list \<Rightarrow> positions \<Rightarrow> positions" where
  "simulate edges pos = (iteration edges ^^ ITERATIONS) pos"

text \<open>
  Lines 98 to 105. \<open>Math.min\<close> of no arguments is \<open>Infinity\<close>, but then \<open>Object.entries\<close>
  is empty as well and the result is the empty object.
\<close>

definition normalise :: "positions \<Rightarrow> (string \<times> point) list" where
  "normalise pos =
     (case map snd pos of
        [] \<Rightarrow> []
      | p # ps \<Rightarrow>
          (let minX = fold min (map px ps) (px p);
               minY = fold min (map py ps) (py p)
           in fold (\<lambda>(k, p) result.
                      AList.update k \<lparr>px = px p - minX + PAD, py = py p - minY + PAD\<rparr> result)
                pos []))"

text \<open>
  The value that the effect of \<open>useForceLayout\<close> hands to \<open>setPositions\<close> for the node and
  edge lists it runs on.
\<close>

definition useForceLayout :: "LineageNode list \<Rightarrow> LineageEdge list \<Rightarrow> (string \<times> point) list" where
  "useForceLayout nodes edges =
     (if length nodes = 0 then [] else normalise (simulate edges (seed nodes)))"

subsection \<open>The call of the layout\<close>




subsection \<open>edgePorts\<close>

record ports =
  x1 :: real
  y1 :: real
  x2 :: real
  y2 :: real

definition edgePorts :: "point \<Rightarrow> point \<Rightarrow> ports" where
  "edgePorts sp tp =
     (let sx = px sp + CARD_W / 2; sy = py sp + CARD_H / 2;
          tx = px tp + CARD_W / 2; ty = py tp + CARD_H / 2;
          dx = tx - sx; dy = ty - sy
      in if \<bar>dx\<bar> > \<bar>dy\<bar> then
           (if dx > 0
            then \<lparr>x1 = px sp + CARD_W, y1 = py sp + CARD_H / 2, x2 = px tp, y2 = py tp + CARD_H / 2\<rparr>
            else \<lparr>x1 = px sp, y1 = py sp + CARD_H / 2, x2 = px tp + CARD_W, y2 = py tp + CARD_H / 2\<rparr>)
         else
           (if dy > 0
            then \<lparr>x1 = px sp + CARD_W / 2, y1 = py sp + CARD_H, x2 = px tp + CARD_W / 2, y2 = py tp\<rparr>
            else \<lparr>x1 = px sp + CARD_W / 2, y1 = py sp, x2 = px tp + CARD_W / 2, y2 = py tp + CARD_H\<rparr>))"

text \<open>The centre of a card and the midpoints of its four sides.\<close>

definition centre_x :: "point \<Rightarrow> real" where "centre_x p = px p + CARD_W / 2"
definition centre_y :: "point \<Rightarrow> real" where "centre_y p = py p + CARD_H / 2"

definition left_mid :: "point \<Rightarrow> real \<times> real" where "left_mid p = (px p, py p + CARD_H / 2)"
definition right_mid :: "point \<Rightarrow> real \<times> real" where "right_mid p = (px p + CARD_W, py p + CARD_H / 2)"
definition top_mid :: "point \<Rightarrow> real \<times> real" where "top_mid p = (px p + CARD_W / 2, py p)"
definition bottom_mid :: "point \<Rightarrow> real \<times> real" where "bottom_mid p = (px p + CARD_W / 2, py p + CARD_H)"

definition exit_port :: "ports \<Rightarrow> real \<times> real" where "exit_port q = (x1 q, y1 q)"
definition entry_port :: "ports \<Rightarrow> real \<times> real" where "entry_port q = (x2 q, y2 q)"

section \<open>Vocabulary of the properties\<close>

text \<open>Whether both endpoint keys of an edge are among the keys \<open>K\<close>.\<close>

definition attached :: "string set \<Rightarrow> LineageEdge \<Rightarrow> bool" where
  "attached K e = (source_key e \<in> K \<and> target_key e \<in> K)"

text \<open>An edge is dangling when its source key or its target key is the key of no node.\<close>

definition dangling :: "LineageNode list \<Rightarrow> LineageEdge \<Rightarrow> bool" where
  "dangling nodes e =
     (source_key e \<notin> node_key ` set nodes \<or> target_key e \<notin> node_key ` set nodes)"

text \<open>The fields of a node and of an edge that the layout reads.\<close>

definition node_geometry :: "LineageNode \<Rightarrow> string \<times> string" where
  "node_geometry n = (node_service n, node_id n)"

definition edge_geometry :: "LineageEdge \<Rightarrow> string \<times> string \<times> string" where
  "edge_geometry e = (edge_service e, edge_source e, edge_target e)"

text \<open>A position object moved by the vector \<open>(tx, ty)\<close>, and the coordinates it holds.\<close>

definition translate :: "real \<Rightarrow> real \<Rightarrow> positions \<Rightarrow> (string \<times> point) list" where
  "translate tx ty pos = map (\<lambda>(k, p). (k, \<lparr>px = px p + tx, py = py p + ty\<rparr>)) pos"

definition xs_of :: "(string \<times> 'a point_scheme) list \<Rightarrow> real set" where
  "xs_of pos = set (map (\<lambda>(k, p). px p) pos)"

definition ys_of :: "(string \<times> 'a point_scheme) list \<Rightarrow> real set" where
  "ys_of pos = set (map (\<lambda>(k, p). py p) pos)"


text \<open>
  The forces as vectors of the complex plane, and a position object whose velocities have
  received the vector \<open>D k\<close> at every key \<open>k\<close>.
\<close>

definition repel_vec :: "particle \<Rightarrow> particle \<Rightarrow> complex" where
  "repel_vec pa pb = Complex (fst (repel_force pa pb)) (snd (repel_force pa pb))"

definition spring_vec :: "particle \<Rightarrow> particle \<Rightarrow> complex" where
  "spring_vec ps pt = Complex (fst (spring_force ps pt)) (snd (spring_force ps pt))"

definition kick :: "(string \<Rightarrow> complex) \<Rightarrow> positions \<Rightarrow> positions" where
  "kick D pos = map (\<lambda>(k, p). (k, p\<lparr>vx := vx p + Re (D k), vy := vy p + Im (D k)\<rparr>)) pos"

text \<open>
  What one pass of the body of the repulsion loop, for the keys \<open>ka\<close> and \<open>kb\<close>, adds to the
  velocity at the key \<open>k\<close>; and the same for the edge callback with the keys \<open>sk\<close> and \<open>tk\<close>.
\<close>

definition repel_delta :: "positions \<Rightarrow> string \<Rightarrow> string \<Rightarrow> string \<Rightarrow> complex" where
  "repel_delta pos ka kb k =
     (case (map_of pos ka, map_of pos kb) of
        (Some pa, Some pb) \<Rightarrow>
          (if k = kb then repel_vec pa pb else 0) - (if k = ka then repel_vec pa pb else 0)
      | _ \<Rightarrow> 0)"

definition spring_delta :: "positions \<Rightarrow> string \<Rightarrow> string \<Rightarrow> string \<Rightarrow> complex" where
  "spring_delta pos sk tk k =
     (case (map_of pos sk, map_of pos tk) of
        (Some ps, Some pt) \<Rightarrow>
          (if k = sk then spring_vec ps pt else 0) - (if k = tk then spring_vec ps pt else 0)
      | _ \<Rightarrow> 0)"

text \<open>The pairs \<open>(keys[a], keys[b])\<close> with \<open>a < b\<close>, in the order of the two loops.\<close>

fun pairs :: "'a list \<Rightarrow> ('a \<times> 'a) list" where
  "pairs [] = []"
| "pairs (x # xs) = map (Pair x) xs @ pairs xs"

text \<open>
  The other objects of a position object, seen from the key \<open>k\<close>; the sum of the repulsion
  that the object \<open>p\<close> at \<open>k\<close> receives from them; what an edge adds to the velocity at
  \<open>k\<close>; and the sum of that over an edge list.
\<close>

definition others :: "positions \<Rightarrow> string \<Rightarrow> particle list" where
  "others pos k = map snd (filter (\<lambda>(j, q). j \<noteq> k) pos)"

definition repulsion_at :: "positions \<Rightarrow> string \<Rightarrow> particle \<Rightarrow> complex" where
  "repulsion_at pos k p = - (\<Sum>q \<leftarrow> others pos k. repel_vec p q)"

definition edge_pull :: "positions \<Rightarrow> LineageEdge \<Rightarrow> string \<Rightarrow> complex" where
  "edge_pull pos e k = spring_delta pos (source_key e) (target_key e) k"

definition attraction_at :: "positions \<Rightarrow> LineageEdge list \<Rightarrow> string \<Rightarrow> complex" where
  "attraction_at pos edges k = (\<Sum>e \<leftarrow> edges. edge_pull pos e k)"

text \<open>An object whose velocity has received the vector \<open>f\<close>.\<close>

definition pushed :: "complex \<Rightarrow> particle \<Rightarrow> particle" where
  "pushed f p = p\<lparr>vx := vx p + Re f, vy := vy p + Im f\<rparr>"

text \<open>
  The Euclidean distance between two objects, the unit vector from the first to the
  second, and the magnitudes that an inverse-square law with a floor and a Hookean spring
  of length \<open>GAP * 1.6\<close> assign to the pair.
\<close>

definition distance :: "'a point_scheme \<Rightarrow> 'b point_scheme \<Rightarrow> real" where
  "distance p q = sqrt ((px q - px p) * (px q - px p) + (py q - py p) * (py q - py p))"

definition direction :: "'a point_scheme \<Rightarrow> 'b point_scheme \<Rightarrow> complex" where
  "direction p q = Complex ((px q - px p) / distance p q) ((py q - py p) / distance p q)"

definition inverse_square :: "'a point_scheme \<Rightarrow> 'b point_scheme \<Rightarrow> real" where
  "inverse_square p q = REPEL / max ((distance p q)\<^sup>2) 1"

definition hookean :: "'a point_scheme \<Rightarrow> 'b point_scheme \<Rightarrow> real" where
  "hookean p q = (distance p q - GAP * (16 / 10)) * ATTRACT"

text \<open>
  Nodes without edges. The seed angle of the node at index \<open>i\<close> of \<open>len\<close> nodes and the
  seed radius; the object of that node when all nodes sit on the circle of radius \<open>rho\<close>
  around \<open>(400, 300)\<close> at their seed angles and move outwards with the speed \<open>nu\<close>; and the
  position object of such a ring.
\<close>

definition seed_angle :: "nat \<Rightarrow> nat \<Rightarrow> real" where
  "seed_angle len i = (2 * pi * real i) / real len"

definition seed_radius :: "nat \<Rightarrow> real" where
  "seed_radius len = GAP * max 1 (real_of_int \<lceil>sqrt (real len)\<rceil> / 2)"

definition ring_particle :: "nat \<Rightarrow> real \<Rightarrow> real \<Rightarrow> nat \<Rightarrow> particle" where
  "ring_particle len rho nu i =
     \<lparr>px = 400 + rho * cos (seed_angle len i), py = 300 + rho * sin (seed_angle len i),
      vx = nu * cos (seed_angle len i), vy = nu * sin (seed_angle len i)\<rparr>"

definition ring :: "string list \<Rightarrow> real \<Rightarrow> real \<Rightarrow> positions" where
  "ring ks rho nu = map (\<lambda>i. (ks ! i, ring_particle (length ks) rho nu i)) [0..<length ks]"

text \<open>
  The factor by which the repulsion loop multiplies the displacement of two objects at
  the distance \<open>d\<close>; the point of the unit circle at the seed angle of index \<open>k\<close>; the
  repulsion between two objects of a ring that are \<open>k\<close> places apart, relative to the
  first; and the outward push that every object of the ring receives in an iteration.
\<close>

definition coef :: "real \<Rightarrow> real" where
  "coef d = REPEL / max (d\<^sup>2) 1 / sqrt (max (d\<^sup>2) 1)"

definition unit_root :: "nat \<Rightarrow> nat \<Rightarrow> complex" where
  "unit_root len k = cis (seed_angle len k)"

definition ring_term :: "nat \<Rightarrow> real \<Rightarrow> nat \<Rightarrow> complex" where
  "ring_term len rho k = of_real (coef (\<bar>rho\<bar> * cmod (unit_root len k - 1))) * (1 - unit_root len k)"

definition radial_push :: "nat \<Rightarrow> real \<Rightarrow> real" where
  "radial_push len rho = rho * Re (\<Sum>k \<in> {1..<len}. ring_term len rho k)"

text \<open>Radius and speed of the ring after \<open>n\<close> iterations, from the radius \<open>rho\<close> at rest.\<close>

fun ring_state :: "nat \<Rightarrow> real \<Rightarrow> nat \<Rightarrow> real \<times> real" where
  "ring_state len rho 0 = (rho, 0)"
| "ring_state len rho (Suc n) =
     (let (r, v) = ring_state len rho n; v' = v + radial_push len r
      in (r + v', v' * DAMPING))"

text \<open>
  Connected nodes. The object at the place \<open>z\<close> of the complex plane with the velocity
  \<open>v\<close>; and the vectors that the repulsion loop and the edge callback compute for two
  objects at the places \<open>z\<close> and \<open>z'\<close>.
\<close>

definition node_at :: "complex \<Rightarrow> complex \<Rightarrow> particle" where
  "node_at z v = \<lparr>px = Re z, py = Im z, vx = Re v, vy = Im v\<rparr>"

definition repel_between :: "complex \<Rightarrow> complex \<Rightarrow> complex" where
  "repel_between z z' = of_real (coef (cmod (z' - z))) * (z' - z)"

definition spring_between :: "complex \<Rightarrow> complex \<Rightarrow> complex" where
  "spring_between z z' = of_real ((cmod (z' - z) - GAP * (16 / 10)) * ATTRACT / cmod (z' - z)) * (z' - z)"

text \<open>
  The centre of the seed circle, and the direction from it to the middle between the
  seeds of the first two of three nodes.
\<close>

definition centre :: complex where "centre = Complex 400 300"

definition axis :: complex where "axis = Complex (1 / 2) (sqrt 3 / 2)"

text \<open>
  Two nodes that sit opposite each other at the distance \<open>h\<close> from the centre and move
  apart with the speed \<open>nu\<close>; what an iteration with an edge between them makes of \<open>h\<close>
  and \<open>nu\<close>; and both after \<open>n\<close> iterations from the seed.
\<close>

definition pair_layout :: "string \<Rightarrow> string \<Rightarrow> real \<times> real \<Rightarrow> positions" where
  "pair_layout ka kb = (\<lambda>(h, nu).
     [(ka, node_at (centre + of_real h) (of_real nu)),
      (kb, node_at (centre - of_real h) (- of_real nu))])"

definition pair_step :: "real \<times> real \<Rightarrow> real \<times> real" where
  "pair_step = (\<lambda>(h, nu).
     let w = nu + 2 * h * coef (2 * h) - (2 * h - GAP * (16 / 10)) * ATTRACT
     in (h + w, w * DAMPING))"

fun pair_state :: "nat \<Rightarrow> real \<times> real" where
  "pair_state 0 = (GAP, 0)"
| "pair_state (Suc n) = pair_step (pair_state n)"

text \<open>
  Three nodes of which the first two mirror each other in the line through the centre
  along \<open>axis\<close>, at the distance \<open>m\<close> along that line and \<open>h\<close> to either side of it, and of
  which the third sits on the line at \<open>2 * m\<close> on the other side of the centre; \<open>mu\<close> and
  \<open>nu\<close> are the speeds of \<open>m\<close> and \<open>h\<close>. What an iteration with an edge between the first
  two makes of the four numbers; and the four numbers after \<open>n\<close> iterations from the seed.
\<close>

definition tri_layout :: "string \<Rightarrow> string \<Rightarrow> string \<Rightarrow> real \<times> real \<times> real \<times> real \<Rightarrow> positions" where
  "tri_layout ka kb kc = (\<lambda>(m, h, mu, nu).
     [(ka, node_at (centre + axis * Complex m (- h)) (axis * Complex mu (- nu))),
      (kb, node_at (centre + axis * Complex m h) (axis * Complex mu nu)),
      (kc, node_at (centre - axis * of_real (2 * m)) (- (axis * of_real (2 * mu))))])"

definition tri_step :: "real \<times> real \<times> real \<times> real \<Rightarrow> real \<times> real \<times> real \<times> real" where
  "tri_step = (\<lambda>(m, h, mu, nu).
     let s = sqrt (9 * m\<^sup>2 + h\<^sup>2);
         wm = mu + 3 * m * coef s;
         wh = nu + 2 * h * coef (2 * h) + h * coef s - (2 * h - GAP * (16 / 10)) * ATTRACT
     in (m + wm, h + wh, wm * DAMPING, wh * DAMPING))"

fun tri_state :: "nat \<Rightarrow> real \<times> real \<times> real \<times> real" where
  "tri_state 0 = (GAP / 2, GAP * sqrt 3 / 2, 0, 0)"
| "tri_state (Suc n) = tri_step (tri_state n)"

text \<open>
  A quadratic form in the offset \<open>e\<close> of \<open>h\<close> from \<open>176\<close>, half the spring length, and in
  the speed \<open>nu\<close>, which the spring and the damping alone shrink by the factor
  \<open>DAMPING\<close> in every iteration; and the region that the three nodes never leave, with
  the distance that the third node has covered at least after \<open>n\<close> iterations.
\<close>

definition lyap :: "real \<Rightarrow> real \<Rightarrow> real" where
  "lyap e nu = (164 * e + 125 * nu)\<^sup>2 + 394375 * nu\<^sup>2"

definition tri_inside :: "nat \<Rightarrow> real \<times> real \<times> real \<times> real \<Rightarrow> bool" where
  "tri_inside n = (\<lambda>(m, h, mu, nu).
     lyap (h - 176) nu \<le> 5700000 \<and> 110 \<le> m \<and> 0 \<le> mu \<and> mu \<le> 76 / 100
     \<and> min 140 (110 + real n / 3) \<le> m + 50 / 9 * mu)"
section \<open>The keys of the position object\<close>

text \<open>No phase of the simulation adds, removes or reorders a key.\<close>

lemma keys_map_entry [simp]: "map fst (AList.map_entry k f al) = map fst al"
  by (induction al) auto

lemma keys_fold_same:
  assumes "\<And>x pos. map fst (f x pos) = map fst pos"
  shows "map fst (fold f xs pos) = map fst pos"
  using assms by (induction xs arbitrary: pos) simp_all

lemma keys_repel [simp]: "map fst (repel ka kb pos) = map fst pos"
  by (simp add: repel_def Let_def split_beta split: option.splits)

lemma keys_repulsion [simp]: "map fst (repulsion ks pos) = map fst pos"
  unfolding repulsion_def by (intro keys_fold_same) simp

lemma keys_spring [simp]: "map fst (spring sk tk pos) = map fst pos"
  by (simp add: spring_def Let_def split_beta split: option.splits)

lemma keys_attraction [simp]: "map fst (attraction es pos) = map fst pos"
  unfolding attraction_def attract_def by (intro keys_fold_same) simp

lemma keys_integrate [simp]: "map fst (integrate ks pos) = map fst pos"
  unfolding integrate_def by (intro keys_fold_same) simp

lemma keys_iteration [simp]: "map fst (iteration es pos) = map fst pos"
  by (simp add: iteration_def Let_def)

lemma keys_iterations [simp]: "map fst ((iteration es ^^ n) pos) = map fst pos"
  by (induction n) simp_all

lemma keys_simulate [simp]: "map fst (simulate es pos) = map fst pos"
  by (simp add: simulate_def)

text \<open>Seeding stores one object under the key of every node.\<close>

lemma seed_fold_keys:
  "fst ` set (fold (\<lambda>(n, i) pos. AList.update (node_key n) (g i) pos) nis acc)
     = fst ` set acc \<union> (node_key \<circ> fst) ` set nis"
proof (induction nis arbitrary: acc)
  case Nil
  show ?case by simp
next
  case (Cons a nis)
  have "fst ` set (AList.update (node_key (fst a)) (g (snd a)) acc)
          = insert (node_key (fst a)) (fst ` set acc)"
    by (simp add: AList.dom_update)
  with Cons.IH show ?case
    by (simp add: split_beta)
qed

lemma seed_fold_distinct:
  "distinct (map fst acc) \<Longrightarrow>
   distinct (map fst (fold (\<lambda>(n, i) pos. AList.update (node_key n) (g i) pos) nis acc))"
  by (induction nis arbitrary: acc) (auto simp: AList.distinct_update)

lemma keys_seed: "fst ` set (seed nodes) = node_key ` set nodes"
proof -
  have "fst ` set (zip nodes [0..<length nodes]) = set nodes"
    by (metis length_upt map_fst_zip set_map minus_nat.diff_0)
  then have "(node_key \<circ> fst) ` set (zip nodes [0..<length nodes]) = node_key ` set nodes"
    by (metis image_comp)
  then show ?thesis
    by (simp add: seed_def seed_fold_keys)
qed

lemma distinct_seed: "distinct (map fst (seed nodes))"
  by (simp add: seed_def seed_fold_distinct)

lemma distinct_simulate: "distinct (map fst (simulate edges (seed nodes)))"
  by (simp add: distinct_seed)

text \<open>The result has an entry for every key of the simulated object.\<close>

lemma normalise_fold_keys:
  "fst ` set (fold (\<lambda>(k, p) result. AList.update k (h p) result) pos acc)
     = fst ` set acc \<union> fst ` set pos"
proof (induction pos arbitrary: acc)
  case Nil
  show ?case by simp
next
  case (Cons a pos)
  have "fst ` set (AList.update (fst a) (h (snd a)) acc) = insert (fst a) (fst ` set acc)"
    by (simp add: AList.dom_update)
  with Cons.IH show ?case
    by (simp add: split_beta)
qed

lemma keys_normalise: "fst ` set (normalise pos) = fst ` set pos"
proof (cases pos)
  case Nil
  then show ?thesis by (simp add: normalise_def)
next
  case (Cons a list)
  then have "normalise pos = fold (\<lambda>(k, p) result. AList.update k
     \<lparr>px = px p - fold min (map px (map snd list)) (px (snd a)) + PAD,
      py = py p - fold min (map py (map snd list)) (py (snd a)) + PAD\<rparr> result) pos []"
    by (simp add: normalise_def Let_def)
  then show ?thesis
    by (simp only: normalise_fold_keys) simp
qed

lemma useForceLayout_Nil: "useForceLayout [] edges = []"
  by (simp add: useForceLayout_def)

lemma keys_useForceLayout: "fst ` set (useForceLayout nodes edges) = node_key ` set nodes"
proof (cases nodes)
  case Nil
  then show ?thesis by (simp add: useForceLayout_def)
next
  case (Cons n ns)
  have "fst ` set (simulate edges (seed nodes)) = fst ` set (seed nodes)"
    by (metis keys_simulate set_map)
  with Cons show ?thesis
    by (simp add: useForceLayout_def keys_normalise keys_seed)
qed

subsection \<open>A single node\<close>

text \<open>One node is seeded at \<open>(620, 300)\<close>, never moves, and is normalised to the padding.\<close>

lemma seed_single:
  "seed [n] = [(node_key n, \<lparr>px = 620, py = 300, vx = 0, vy = 0\<rparr>)]"
  by (simp add: seed_def seed_particle_def GAP_def)

lemma iteration_single_at_rest:
  "iteration [] [(k, \<lparr>px = a, py = b, vx = 0, vy = 0\<rparr>)] = [(k, \<lparr>px = a, py = b, vx = 0, vy = 0\<rparr>)]"
  by (simp add: iteration_def repulsion_def attraction_def integrate_def move_def)

lemma iterations_single_at_rest:
  "(iteration [] ^^ m) [(k, \<lparr>px = a, py = b, vx = 0, vy = 0\<rparr>)] = [(k, \<lparr>px = a, py = b, vx = 0, vy = 0\<rparr>)]"
  by (induction m) (simp_all add: iteration_single_at_rest)

lemma useForceLayout_single:
  "useForceLayout [n] [] = [(node_key n, \<lparr>px = 40, py = 40\<rparr>)]"
  by (simp add: useForceLayout_def simulate_def seed_single iterations_single_at_rest
      normalise_def PAD_def)

section \<open>The phases of an iteration as sums of forces\<close>

subsection \<open>Objects updated in place\<close>

lemma map_entry_mapped:
  assumes "distinct (map fst pos)"
  shows "AList.map_entry k g (map (\<lambda>(j, p). (j, h j p)) pos)
           = map (\<lambda>(j, p). (j, if j = k then g (h j p) else h j p)) pos"
  using assms
proof (induction pos)
  case Nil
  show ?case by simp
next
  case (Cons e pos)
  obtain j p where e: "e = (j, p)" by (cases e)
  show ?case
  proof (cases "j = k")
    case True
    with Cons.prems e have "\<forall>x \<in> set pos. fst x \<noteq> k"
      by auto
    then have "map (\<lambda>(j, p). (j, if j = k then g (h j p) else h j p)) pos
                 = map (\<lambda>(j, p). (j, h j p)) pos"
      by (intro map_cong) auto
    with True e show ?thesis by simp
  next
    case False
    with Cons e show ?thesis by simp
  qed
qed

lemma map_of_mapped:
  "map_of (map (\<lambda>(j, p). (j, h j p)) pos) k = map_option (h k) (map_of pos k)"
  by (induction pos) auto

lemma map_of_kick:
  "map_of (kick D pos) k
     = map_option (\<lambda>p. p\<lparr>vx := vx p + Re (D k), vy := vy p + Im (D k)\<rparr>) (map_of pos k)"
  unfolding kick_def by (rule map_of_mapped)

lemma kick_zero [simp]: "kick (\<lambda>k. 0) pos = pos"
  by (induction pos) (auto simp: kick_def)

lemma kick_cong:
  assumes "\<And>k. k \<in> fst ` set pos \<Longrightarrow> D k = D' k"
  shows "kick D pos = kick D' pos"
proof -
  have "D (fst e) = D' (fst e)" if "e \<in> set pos" for e
    using that by (intro assms) simp
  then show ?thesis
    unfolding kick_def by (intro map_cong) (auto simp: split_def)
qed

lemma repel_force_velocity [simp]:
  "repel_force (pa\<lparr>vx := a, vy := b\<rparr>) (pb\<lparr>vx := c, vy := d\<rparr>) = repel_force pa pb"
  by (simp add: repel_force_def)

lemma spring_force_velocity [simp]:
  "spring_force (pa\<lparr>vx := a, vy := b\<rparr>) (pb\<lparr>vx := c, vy := d\<rparr>) = spring_force pa pb"
  by (simp add: spring_force_def)

lemma repel_kick:
  assumes "distinct (map fst pos)"
  shows "repel ka kb (kick D pos) = kick (\<lambda>k. D k + repel_delta pos ka kb k) pos"
proof (cases "\<exists>pa pb. map_of pos ka = Some pa \<and> map_of pos kb = Some pb")
  case False
  then have "repel ka kb (kick D pos) = kick D pos"
    by (auto simp: repel_def map_of_kick split: option.splits)
  moreover from False have "repel_delta pos ka kb k = 0" for k
    by (auto simp: repel_delta_def split: option.splits)
  ultimately show ?thesis by simp
next
  case True
  then obtain pa pb where pa: "map_of pos ka = Some pa" and pb: "map_of pos kb = Some pb"
    by blast
  obtain fx fy where f: "repel_force pa pb = (fx, fy)"
    by (cases "repel_force pa pb")
  have "repel ka kb (kick D pos)
          = AList.map_entry kb (\<lambda>p. p\<lparr>vx := vx p + fx, vy := vy p + fy\<rparr>)
              (AList.map_entry ka (\<lambda>p. p\<lparr>vx := vx p - fx, vy := vy p - fy\<rparr>) (kick D pos))"
    by (simp add: repel_def map_of_kick pa pb f)
  also have "\<dots> = map (\<lambda>(j, p). (j,
        if j = kb
        then (if j = ka then p\<lparr>vx := vx p + Re (D j) - fx + fx, vy := vy p + Im (D j) - fy + fy\<rparr>
              else p\<lparr>vx := vx p + Re (D j) + fx, vy := vy p + Im (D j) + fy\<rparr>)
        else (if j = ka then p\<lparr>vx := vx p + Re (D j) - fx, vy := vy p + Im (D j) - fy\<rparr>
              else p\<lparr>vx := vx p + Re (D j), vy := vy p + Im (D j)\<rparr>))) pos"
    unfolding kick_def
    by (simp only: map_entry_mapped [OF assms]) (intro map_cong, auto)
  also have "\<dots> = kick (\<lambda>k. D k + repel_delta pos ka kb k) pos"
    unfolding kick_def
    by (intro map_cong) (auto simp: repel_delta_def pa pb repel_vec_def f)
  finally show ?thesis .
qed

lemma spring_kick:
  assumes "distinct (map fst pos)"
  shows "spring sk tk (kick D pos) = kick (\<lambda>k. D k + spring_delta pos sk tk k) pos"
proof (cases "\<exists>ps pt. map_of pos sk = Some ps \<and> map_of pos tk = Some pt")
  case False
  then have "spring sk tk (kick D pos) = kick D pos"
    by (auto simp: spring_def map_of_kick split: option.splits)
  moreover from False have "spring_delta pos sk tk k = 0" for k
    by (auto simp: spring_delta_def split: option.splits)
  ultimately show ?thesis by simp
next
  case True
  then obtain ps pt where ps: "map_of pos sk = Some ps" and pt: "map_of pos tk = Some pt"
    by blast
  obtain fx fy where f: "spring_force ps pt = (fx, fy)"
    by (cases "spring_force ps pt")
  have "spring sk tk (kick D pos)
          = AList.map_entry tk (\<lambda>p. p\<lparr>vx := vx p - fx, vy := vy p - fy\<rparr>)
              (AList.map_entry sk (\<lambda>p. p\<lparr>vx := vx p + fx, vy := vy p + fy\<rparr>) (kick D pos))"
    by (simp add: spring_def map_of_kick ps pt f)
  also have "\<dots> = map (\<lambda>(j, p). (j,
        if j = tk
        then (if j = sk then p\<lparr>vx := vx p + Re (D j) + fx - fx, vy := vy p + Im (D j) + fy - fy\<rparr>
              else p\<lparr>vx := vx p + Re (D j) - fx, vy := vy p + Im (D j) - fy\<rparr>)
        else (if j = sk then p\<lparr>vx := vx p + Re (D j) + fx, vy := vy p + Im (D j) + fy\<rparr>
              else p\<lparr>vx := vx p + Re (D j), vy := vy p + Im (D j)\<rparr>))) pos"
    unfolding kick_def
    by (simp only: map_entry_mapped [OF assms]) (intro map_cong, auto)
  also have "\<dots> = kick (\<lambda>k. D k + spring_delta pos sk tk k) pos"
    unfolding kick_def
    by (intro map_cong) (auto simp: spring_delta_def ps pt spring_vec_def f)
  finally show ?thesis .
qed

subsection \<open>The repulsion loops\<close>

lemma fold_repel_kick:
  assumes "distinct (map fst pos)"
  shows "fold (\<lambda>(a, b). repel a b) L (kick D pos)
           = kick (\<lambda>k. D k + (\<Sum>(a, b) \<leftarrow> L. repel_delta pos a b k)) pos"
proof (induction L arbitrary: D)
  case Nil
  show ?case by simp
next
  case (Cons ab L)
  obtain a b where ab: "ab = (a, b)" by (cases ab)
  have "fold (\<lambda>(a, b). repel a b) (ab # L) (kick D pos)
          = fold (\<lambda>(a, b). repel a b) L (kick (\<lambda>k. D k + repel_delta pos a b k) pos)"
    by (simp add: ab repel_kick [OF assms])
  also have "\<dots> = kick (\<lambda>k. D k + repel_delta pos a b k
                           + (\<Sum>(a, b) \<leftarrow> L. repel_delta pos a b k)) pos"
    by (rule Cons.IH)
  finally show ?case
    by (simp add: ab add.assoc)
qed

lemma pairs_nth:
  "concat (map (\<lambda>a. map (\<lambda>b. (ks ! a, ks ! b)) [Suc a..<length ks]) [0..<length ks]) = pairs ks"
proof (induction ks)
  case Nil
  show ?case by simp
next
  case (Cons x xs)
  have inner: "map (\<lambda>b. ((x # xs) ! a, (x # xs) ! b)) [Suc a..<Suc (length xs)]
                 = map (\<lambda>b. ((x # xs) ! a, xs ! b)) [a..<length xs]" for a
    by (simp only: map_Suc_upt [symmetric] map_map comp_def nth_Cons_Suc)
  have "concat (map (\<lambda>a. map (\<lambda>b. ((x # xs) ! a, (x # xs) ! b)) [Suc a..<length (x # xs)])
          [0..<length (x # xs)])
        = concat (map (\<lambda>a. map (\<lambda>b. ((x # xs) ! a, xs ! b)) [a..<length xs]) (0 # map Suc [0..<length xs]))"
    by (simp only: inner length_Cons upt_conv_Cons [of 0] map_Suc_upt)
  also have "\<dots> = map (\<lambda>b. (x, xs ! b)) [0..<length xs]
        @ concat (map (\<lambda>a. map (\<lambda>b. (xs ! a, xs ! b)) [Suc a..<length xs]) [0..<length xs])"
    by (simp add: comp_def)
  also have "map (\<lambda>b. (x, xs ! b)) [0..<length xs] = map (Pair x) xs"
  proof -
    have "map (Pair x) xs = map (Pair x) (map ((!) xs) [0..<length xs])"
      by (simp only: map_nth)
    also have "\<dots> = map (\<lambda>b. (x, xs ! b)) [0..<length xs]"
      by (simp only: map_map comp_def)
    finally show ?thesis by simp
  qed
  finally show ?case
    by (simp add: Cons.IH)
qed

lemma fold_over_concat: "fold f (concat xss) = fold (fold f) xss"
  by (induction xss) simp_all

lemma repulsion_pairs: "repulsion ks pos = fold (\<lambda>(a, b). repel a b) (pairs ks) pos"
proof -
  have "fold (\<lambda>(a, b). repel a b) (pairs ks) pos
          = fold (\<lambda>(a, b). repel a b)
              (concat (map (\<lambda>a. map (\<lambda>b. (ks ! a, ks ! b)) [Suc a..<length ks]) [0..<length ks])) pos"
    by (simp only: pairs_nth)
  also have "\<dots> = repulsion ks pos"
    by (simp add: repulsion_def fold_over_concat fold_map comp_def)
  finally show ?thesis by simp
qed

text \<open>Every key meets every other key once, as the first or as the second of a pair.\<close>

lemma sum_list_all_zero:
  fixes g :: "'a \<Rightarrow> complex"
  shows "(\<And>b. b \<in> set xs \<Longrightarrow> g b = 0) \<Longrightarrow> (\<Sum>b \<leftarrow> xs. g b) = 0"
  by (induction xs) simp_all

lemma sum_list_negated:
  fixes g :: "'a \<Rightarrow> complex"
  shows "(\<Sum>b \<leftarrow> xs. - g b) = - (\<Sum>b \<leftarrow> xs. g b)"
  by (induction xs) simp_all

lemma sum_list_single:
  fixes g :: "'a \<Rightarrow> complex"
  assumes "distinct xs"
  shows "(\<Sum>b \<leftarrow> xs. if k = b then g b else 0) = (if k \<in> set xs then g k else 0)"
  using assms by (induction xs) auto

lemma sum_pairs_absent:
  fixes F :: "'a \<Rightarrow> 'a \<Rightarrow> complex"
  assumes "k \<notin> set ks"
  shows "(\<Sum>(a, b) \<leftarrow> pairs ks. (if k = b then F a b else 0) - (if k = a then F a b else 0)) = 0"
  using assms
proof (induction ks)
  case Nil
  show ?case by simp
next
  case (Cons x xs)
  have "(\<Sum>b \<leftarrow> xs. (if k = b then F x b else 0) - (if k = x then F x b else 0)) = 0"
    using Cons.prems by (intro sum_list_all_zero) auto
  with Cons show ?case
    by (simp add: comp_def)
qed

lemma sum_pairs_present:
  fixes F :: "'a \<Rightarrow> 'a \<Rightarrow> complex"
  assumes "distinct ks" and "k \<in> set ks" and anti: "\<And>a b. F b a = - F a b"
  shows "(\<Sum>(a, b) \<leftarrow> pairs ks. (if k = b then F a b else 0) - (if k = a then F a b else 0))
           = - (\<Sum>j \<leftarrow> filter (\<lambda>j. j \<noteq> k) ks. F k j)"
  using assms(1, 2)
proof (induction ks)
  case Nil
  then show ?case by simp
next
  case (Cons x xs)
  show ?case
  proof (cases "k = x")
    case True
    with Cons.prems have notin: "k \<notin> set xs"
      by simp
    then have "(\<Sum>b \<leftarrow> xs. (if k = b then F x b else 0) - (if k = x then F x b else 0))
                 = (\<Sum>b \<leftarrow> xs. - F k b)"
      using True by (intro arg_cong [where f = sum_list] map_cong) auto
    moreover have "filter (\<lambda>j. j \<noteq> k) xs = xs"
      using notin by (intro filter_True) auto
    ultimately show ?thesis
      using True sum_pairs_absent [OF notin, of F]
      by (simp add: comp_def sum_list_negated)
  next
    case False
    with Cons.prems have k: "k \<in> set xs" and d: "distinct xs"
      by simp_all
    have "(\<Sum>b \<leftarrow> xs. (if k = b then F x b else 0) - (if k = x then F x b else 0))
            = (\<Sum>b \<leftarrow> xs. if k = b then F x b else 0)"
      using False by (intro arg_cong [where f = sum_list] map_cong) auto
    also have "\<dots> = F x k"
      using sum_list_single [OF d, of k "F x"] k by simp
    finally have "(\<Sum>b \<leftarrow> xs. (if k = b then F x b else 0) - (if k = x then F x b else 0)) = - F k x"
      by (simp add: anti [of k x])
    with False Cons.IH [OF d k] show ?thesis
      by (simp add: comp_def)
  qed
qed

lemma repel_vec_antisym: "repel_vec q p = - repel_vec p q"
proof -
  define D where "D = max ((px q - px p) * (px q - px p) + (py q - py p) * (py q - py p)) 1"
  have D: "max ((px p - px q) * (px p - px q) + (py p - py q) * (py p - py q)) 1 = D"
    unfolding D_def by (rule arg_cong [where f = "\<lambda>x. max x 1"]) (simp add: algebra_simps)
  have flip: "(a - b) / s * f = - ((b - a) / s * f)" for a b s f :: real
    by (simp add: algebra_simps diff_divide_distrib)
  show ?thesis
    unfolding repel_vec_def repel_force_def Let_def D fst_conv snd_conv
    unfolding D_def [symmetric]
    by (simp only: complex_eq_iff complex.sel uminus_complex.sel flip [of "px p" "px q"]
        flip [of "py p" "py q"])
qed

lemma pairs_members: "(a, b) \<in> set (pairs ks) \<Longrightarrow> a \<in> set ks \<and> b \<in> set ks"
  by (induction ks) auto

lemma sum_list_others:
  assumes "distinct (map fst pos)"
  shows "(\<Sum>j \<leftarrow> filter (\<lambda>j. j \<noteq> k) (map fst pos). G (the (map_of pos j)))
           = (\<Sum>q \<leftarrow> others pos k. (G q :: complex))"
proof -
  have found: "map_of pos (fst e) = Some (snd e)" if "e \<in> set pos" for e
  proof (cases e)
    case (Pair j q)
    with that assms show ?thesis by simp
  qed
  have keys: "filter (\<lambda>j. j \<noteq> k) (map fst pos) = map fst (filter (\<lambda>(j, q). j \<noteq> k) pos)"
    by (simp add: filter_map comp_def split_def)
  have "(\<Sum>j \<leftarrow> filter (\<lambda>j. j \<noteq> k) (map fst pos). G (the (map_of pos j)))
          = sum_list (map (\<lambda>e. G (the (map_of pos (fst e)))) (filter (\<lambda>(j, q). j \<noteq> k) pos))"
    by (simp only: keys map_map comp_def)
  also have "map (\<lambda>e. G (the (map_of pos (fst e)))) (filter (\<lambda>(j, q). j \<noteq> k) pos)
               = map (\<lambda>e. G (snd e)) (filter (\<lambda>(j, q). j \<noteq> k) pos)"
    by (intro map_cong refl) (simp add: found)
  also have "sum_list (map (\<lambda>e. G (snd e)) (filter (\<lambda>(j, q). j \<noteq> k) pos))
               = (\<Sum>q \<leftarrow> others pos k. G q)"
    by (simp only: others_def map_map comp_def)
  finally show ?thesis .
qed

text \<open>
  After the two repulsion loops every object has kept its place and has received, from
  every other object, the opposite of the force that the loop body computes for the pair.
\<close>

lemma repulsion_kick:
  assumes "distinct (map fst pos)"
  shows "repulsion (map fst pos) pos = map (\<lambda>(k, p). (k, pushed (repulsion_at pos k p) p)) pos"
proof -
  let ?ks = "map fst pos"
  let ?F = "\<lambda>a b. repel_vec (the (map_of pos a)) (the (map_of pos b))"
  have present: "\<exists>p. map_of pos a = Some p" if "a \<in> set ?ks" for a
    using that by (cases "map_of pos a") (auto simp: map_of_eq_None_iff)
  have delta: "repel_delta pos a b k = (if k = b then ?F a b else 0) - (if k = a then ?F a b else 0)"
    if "(a, b) \<in> set (pairs ?ks)" for a b k
  proof -
    from pairs_members [OF that] have "a \<in> set ?ks" and "b \<in> set ?ks"
      by simp_all
    then obtain pa pb where "map_of pos a = Some pa" and "map_of pos b = Some pb"
      using present [of a] present [of b] by auto
    then show ?thesis
      by (auto simp: repel_delta_def)
  qed
  have total: "(\<Sum>(a, b) \<leftarrow> pairs ?ks. repel_delta pos a b k) = repulsion_at pos k p"
    if "(k, p) \<in> set pos" for k p
  proof -
    have "(case x of (a, b) \<Rightarrow> repel_delta pos a b k)
            = (case x of (a, b) \<Rightarrow> (if k = b then ?F a b else 0) - (if k = a then ?F a b else 0))"
      if "x \<in> set (pairs ?ks)" for x
    proof (cases x)
      case (Pair a b)
      with that show ?thesis
        using delta [of a b k] by simp
    qed
    then have "(\<Sum>(a, b) \<leftarrow> pairs ?ks. repel_delta pos a b k)
            = (\<Sum>(a, b) \<leftarrow> pairs ?ks. (if k = b then ?F a b else 0) - (if k = a then ?F a b else 0))"
      by (intro arg_cong [where f = sum_list] map_cong refl)
    also have "\<dots> = - (\<Sum>j \<leftarrow> filter (\<lambda>j. j \<noteq> k) ?ks. ?F k j)"
    proof (rule sum_pairs_present [OF assms])
      show "k \<in> set ?ks"
        using that by force
      show "?F b a = - ?F a b" for a b
        by (rule repel_vec_antisym)
    qed
    also have "\<dots> = - (\<Sum>q \<leftarrow> others pos k. repel_vec (the (map_of pos k)) q)"
      using sum_list_others [OF assms, where k = k and G = "repel_vec (the (map_of pos k))"] by simp
    also have "the (map_of pos k) = p"
      using that assms by simp
    finally show ?thesis
      by (simp add: repulsion_at_def)
  qed
  have "repulsion ?ks pos = fold (\<lambda>(a, b). repel a b) (pairs ?ks) (kick (\<lambda>k. 0) pos)"
    by (simp add: repulsion_pairs)
  also have "\<dots> = kick (\<lambda>k. 0 + (\<Sum>(a, b) \<leftarrow> pairs ?ks. repel_delta pos a b k)) pos"
    by (rule fold_repel_kick [OF assms])
  also have "\<dots> = map (\<lambda>(k, p). (k, pushed (repulsion_at pos k p) p)) pos"
    unfolding kick_def
  proof (intro map_cong refl)
    fix e assume e: "e \<in> set pos"
    obtain k p where kp: "e = (k, p)" by (cases e)
    from e kp have "(\<Sum>(a, b) \<leftarrow> pairs ?ks. repel_delta pos a b k) = repulsion_at pos k p"
      by (intro total) simp
    then show "(case e of (k, p) \<Rightarrow>
                  (k, p\<lparr>vx := vx p + Re (0 + (\<Sum>(a, b) \<leftarrow> pairs ?ks. repel_delta pos a b k)),
                        vy := vy p + Im (0 + (\<Sum>(a, b) \<leftarrow> pairs ?ks. repel_delta pos a b k))\<rparr>))
             = (case e of (k, p) \<Rightarrow> (k, pushed (repulsion_at pos k p) p))"
      by (simp add: kp pushed_def)
  qed
  finally show ?thesis .
qed

subsection \<open>The springs\<close>

lemma fold_spring_kick:
  assumes "distinct (map fst pos)"
  shows "fold attract es (kick D pos) = kick (\<lambda>k. D k + attraction_at pos es k) pos"
proof (induction es arbitrary: D)
  case Nil
  show ?case by (simp add: attraction_at_def)
next
  case (Cons e es)
  have "fold attract (e # es) (kick D pos)
          = fold attract es (kick (\<lambda>k. D k + edge_pull pos e k) pos)"
    by (simp add: attract_def edge_pull_def spring_kick [OF assms])
  also have "\<dots> = kick (\<lambda>k. D k + edge_pull pos e k + attraction_at pos es k) pos"
    by (rule Cons.IH)
  finally show ?case
    by (simp add: attraction_at_def add.assoc)
qed

lemma attraction_kick:
  assumes "distinct (map fst pos)"
  shows "attraction es pos = map (\<lambda>(k, p). (k, pushed (attraction_at pos es k) p)) pos"
  using fold_spring_kick [OF assms, of es "\<lambda>k. 0"]
  by (simp add: attraction_def kick_def pushed_def)

subsection \<open>Integration and the whole iteration\<close>

lemma fold_move_mapped:
  assumes "distinct (map fst pos)" and "distinct ks"
  shows "fold (\<lambda>k. AList.map_entry k move) ks (map (\<lambda>(j, p). (j, h j p)) pos)
           = map (\<lambda>(j, p). (j, if j \<in> set ks then move (h j p) else h j p)) pos"
  using assms(2)
proof (induction ks arbitrary: h)
  case Nil
  show ?case by simp
next
  case (Cons k ks)
  have "fold (\<lambda>k. AList.map_entry k move) (k # ks) (map (\<lambda>(j, p). (j, h j p)) pos)
          = fold (\<lambda>k. AList.map_entry k move) ks
              (map (\<lambda>(j, p). (j, if j = k then move (h j p) else h j p)) pos)"
    by (simp add: map_entry_mapped [OF assms(1)])
  also have "\<dots> = map (\<lambda>(j, p). (j, if j \<in> set ks
                                     then move (if j = k then move (h j p) else h j p)
                                     else (if j = k then move (h j p) else h j p))) pos"
    using Cons.prems by (intro Cons.IH) simp
  also have "\<dots> = map (\<lambda>(j, p). (j, if j \<in> set (k # ks) then move (h j p) else h j p)) pos"
    using Cons.prems by (intro map_cong refl) auto
  finally show ?case .
qed

lemma integrate_mapped:
  assumes "distinct (map fst pos)"
  shows "integrate (map fst pos) (map (\<lambda>(j, p). (j, h j p)) pos)
           = map (\<lambda>(j, p). (j, move (h j p))) pos"
proof -
  have "integrate (map fst pos) (map (\<lambda>(j, p). (j, h j p)) pos)
          = map (\<lambda>(j, p). (j, if j \<in> set (map fst pos) then move (h j p) else h j p)) pos"
    unfolding integrate_def by (rule fold_move_mapped [OF assms assms])
  also have "\<dots> = map (\<lambda>(j, p). (j, move (h j p))) pos"
    by (intro map_cong refl) force
  finally show ?thesis .
qed

text \<open>
  One iteration: every object receives the repulsion from all others and the pull of all
  edges, both computed from the places at the start of the iteration, and then moves.
\<close>

lemma iteration_net:
  assumes "distinct (map fst pos)"
  shows "iteration es pos
           = map (\<lambda>(k, p). (k, move (pushed (repulsion_at pos k p + attraction_at pos es k) p))) pos"
proof -
  have "repulsion (map fst pos) pos = kick (\<lambda>k. repulsion_at pos k (the (map_of pos k))) pos"
    unfolding kick_def repulsion_kick [OF assms]
    using assms by (intro map_cong refl) (auto simp: pushed_def)
  then have "attraction es (repulsion (map fst pos) pos)
               = kick (\<lambda>k. repulsion_at pos k (the (map_of pos k)) + attraction_at pos es k) pos"
    by (simp add: attraction_def fold_spring_kick [OF assms])
  also have "\<dots> = map (\<lambda>(k, p). (k, pushed (repulsion_at pos k p + attraction_at pos es k) p)) pos"
    unfolding kick_def using assms by (intro map_cong refl) (auto simp: pushed_def)
  finally show ?thesis
    by (simp add: iteration_def integrate_mapped [OF assms])
qed

section \<open>Keys of the result\<close>

text \<open>
  C1. The keys of the returned position object are exactly the composite keys
  \<open>service:id\<close> of the input nodes, for every node list and edge list; for the empty
  node list the returned object is empty.
\<close>

theorem position_keys_are_node_keys:
  "dom (map_of (useForceLayout nodes edges)) = node_key ` set nodes
   \<and> useForceLayout [] edges = []"
  by (simp add: dom_map_of_conv_image_fst keys_useForceLayout useForceLayout_Nil)

section \<open>Dangling edges\<close>

lemma spring_missing:
  "sk \<notin> fst ` set pos \<or> tk \<notin> fst ` set pos \<Longrightarrow> spring sk tk pos = pos"
proof -
  assume "sk \<notin> fst ` set pos \<or> tk \<notin> fst ` set pos"
  then have "map_of pos sk = None \<or> map_of pos tk = None"
    by (simp add: map_of_eq_None_iff)
  then show ?thesis
    by (auto simp: spring_def split: option.splits)
qed

lemma attraction_attached:
  "attraction (filter (attached (fst ` set pos)) es) pos = attraction es pos"
proof (induction es arbitrary: pos)
  case Nil
  show ?case by simp
next
  case (Cons e es)
  have k: "fst ` set (attract e pos) = fst ` set pos"
    using keys_spring [of "source_key e" "target_key e" pos]
    by (metis attract_def set_map)
  show ?case
  proof (cases "attached (fst ` set pos) e")
    case True
    then show ?thesis
      using Cons.IH [of "attract e pos"] by (simp add: attraction_def k)
  next
    case False
    then have "attract e pos = pos"
      by (auto simp: attached_def attract_def intro: spring_missing)
    with False show ?thesis
      using Cons.IH [of pos] by (simp add: attraction_def)
  qed
qed

lemma iteration_attached:
  "iteration (filter (attached (fst ` set pos)) es) pos = iteration es pos"
proof -
  have "fst ` set (repulsion (map fst pos) pos) = fst ` set pos"
    by (metis keys_repulsion set_map)
  then show ?thesis
    using attraction_attached [of "repulsion (map fst pos) pos" es]
    by (simp add: iteration_def Let_def)
qed

lemma iterations_attached:
  "(iteration (filter (attached (fst ` set pos)) es) ^^ n) pos = (iteration es ^^ n) pos"
proof (induction n)
  case 0
  show ?case by simp
next
  case (Suc n)
  have "fst ` set ((iteration es ^^ n) pos) = fst ` set pos"
    by (metis keys_iterations set_map)
  then show ?case
    using iteration_attached [of "(iteration es ^^ n) pos" es] Suc by simp
qed

lemma useForceLayout_attached:
  "useForceLayout nodes (filter (attached (node_key ` set nodes)) edges) = useForceLayout nodes edges"
  using iterations_attached [where pos = "seed nodes" and es = edges and n = ITERATIONS]
  by (simp add: useForceLayout_def simulate_def keys_seed)

text \<open>
  C6. An edge whose source key or target key is the key of no input node exerts no force:
  the layout of a node list and an edge list is the layout of the same nodes with the
  dangling edges removed. The model has no error value to return: the callback of the
  source returns early on such an edge and nothing in it throws.
\<close>

theorem dangling_edges_ignored:
  "useForceLayout nodes edges = useForceLayout nodes (filter (\<lambda>e. \<not> dangling nodes e) edges)"
proof -
  have "(\<lambda>e. \<not> dangling nodes e) = attached (node_key ` set nodes)"
    by (auto simp: dangling_def attached_def fun_eq_iff)
  then show ?thesis
    by (simp add: useForceLayout_attached)
qed

theorem dangling_edges_ignored_witness:
  "dangling [\<lparr>node_id = ''orders'', node_label = ''orders'', node_row_count = 10, node_service = ''shop''\<rparr>]
     \<lparr>edge_source = ''orders'', edge_target = ''customers'', edge_source_column = ''customer_id'',
      edge_target_column = ''id'', edge_service = ''shop'', edge_inferred = False\<rparr>
   \<and> useForceLayout
       [\<lparr>node_id = ''orders'', node_label = ''orders'', node_row_count = 10, node_service = ''shop''\<rparr>]
       [\<lparr>edge_source = ''orders'', edge_target = ''customers'', edge_source_column = ''customer_id'',
         edge_target_column = ''id'', edge_service = ''shop'', edge_inferred = False\<rparr>]
     = [(''shop:orders'', \<lparr>px = 40, py = 40\<rparr>)]"
  using dangling_edges_ignored
    [of "[\<lparr>node_id = ''orders'', node_label = ''orders'', node_row_count = 10, node_service = ''shop''\<rparr>]"
        "[\<lparr>edge_source = ''orders'', edge_target = ''customers'', edge_source_column = ''customer_id'',
           edge_target_column = ''id'', edge_service = ''shop'', edge_inferred = False\<rparr>]"]
  by (simp add: dangling_def useForceLayout_single node_key_def source_key_def target_key_def
      composite_key_def)

section \<open>Fields the layout does not read\<close>

lemma seed_by_keys:
  "seed nodes =
     fold (\<lambda>(k, i) pos. AList.update k (seed_particle (length (map node_key nodes)) i) pos)
       (zip (map node_key nodes) [0..<length (map node_key nodes)]) []"
proof -
  have "zip (map node_key nodes) [0..<length nodes]
          = map (\<lambda>(n, i). (node_key n, i)) (zip nodes [0..<length nodes])"
    by (simp add: zip_map1)
  then show ?thesis
    by (simp add: seed_def fold_map comp_def split_def)
qed

lemma attraction_by_keys:
  "attraction edges =
     fold (\<lambda>(sk, tk). spring sk tk) (map (\<lambda>e. (source_key e, target_key e)) edges)"
proof -
  have "attract = (\<lambda>e. spring (source_key e) (target_key e))"
    by (simp add: fun_eq_iff attract_def)
  moreover have "attraction edges = fold attract edges"
    by (simp add: fun_eq_iff attraction_def)
  ultimately have "attraction edges = fold (\<lambda>e. spring (source_key e) (target_key e)) edges"
    by simp
  then show ?thesis
    by (simp add: fold_map comp_def)
qed

lemma geometry_gives_keys:
  assumes "map node_geometry nodes = map node_geometry nodes'"
  shows "map node_key nodes = map node_key nodes'"
proof -
  have expand: "map node_key ns = map (\<lambda>(s, i). composite_key s i) (map node_geometry ns)" for ns
    by (simp add: node_key_def node_geometry_def)
  show ?thesis
    by (simp only: expand assms)
qed

lemma geometry_gives_edge_keys:
  assumes "map edge_geometry edges = map edge_geometry edges'"
  shows "map (\<lambda>e. (source_key e, target_key e)) edges = map (\<lambda>e. (source_key e, target_key e)) edges'"
proof -
  have expand: "map (\<lambda>e. (source_key e, target_key e)) es
      = map (\<lambda>(s, a, b). (composite_key s a, composite_key s b)) (map edge_geometry es)" for es
    by (simp add: source_key_def target_key_def edge_geometry_def)
  show ?thesis
    by (simp only: expand assms)
qed

text \<open>
  C10. The returned position object depends only on the list of the nodes' services and
  ids, in order, and on the list of the edges' services, sources and targets: two inputs
  that agree on these have the same layout, whatever their labels, row counts, column
  names and inferred flags are.
\<close>

theorem layout_noninterference:
  assumes "map node_geometry nodes = map node_geometry nodes'"
    and "map edge_geometry edges = map edge_geometry edges'"
  shows "useForceLayout nodes edges = useForceLayout nodes' edges'"
proof -
  have k: "map node_key nodes = map node_key nodes'"
    using assms(1) by (rule geometry_gives_keys)
  then have len: "length nodes = length nodes'"
    by (metis length_map)
  have "seed nodes = seed nodes'"
    by (simp only: seed_by_keys k)
  moreover have "attraction edges = attraction edges'"
    by (simp only: attraction_by_keys geometry_gives_edge_keys [OF assms(2)])
  then have "iteration edges = iteration edges'"
    by (simp add: iteration_def fun_eq_iff)
  ultimately show ?thesis
    by (simp add: useForceLayout_def simulate_def len)
qed

theorem layout_noninterference_witness:
  "useForceLayout
     [\<lparr>node_id = ''orders'', node_label = ''Orders'', node_row_count = 10, node_service = ''shop''\<rparr>,
      \<lparr>node_id = ''customers'', node_label = ''Customers'', node_row_count = 3, node_service = ''shop''\<rparr>]
     [\<lparr>edge_source = ''orders'', edge_target = ''customers'', edge_source_column = ''customer_id'',
       edge_target_column = ''id'', edge_service = ''shop'', edge_inferred = False\<rparr>]
   = useForceLayout
     [\<lparr>node_id = ''orders'', node_label = ''o'', node_row_count = 0, node_service = ''shop''\<rparr>,
      \<lparr>node_id = ''customers'', node_label = ''c'', node_row_count = 99, node_service = ''shop''\<rparr>]
     [\<lparr>edge_source = ''orders'', edge_target = ''customers'', edge_source_column = ''cust'',
       edge_target_column = ''key'', edge_service = ''shop'', edge_inferred = True\<rparr>]"
  by (rule layout_noninterference) (simp_all add: node_geometry_def edge_geometry_def)

section \<open>Normalisation\<close>

lemma update_fresh: "k \<notin> fst ` set al \<Longrightarrow> AList.update k v al = al @ [(k, v)]"
  by (induction al) auto

lemma fold_update_fresh:
  "distinct (map fst acc @ map fst pos) \<Longrightarrow>
   fold (\<lambda>(k, p) result. AList.update k (h p) result) pos acc
     = acc @ map (\<lambda>(k, p). (k, h p)) pos"
proof (induction pos arbitrary: acc)
  case Nil
  show ?case by simp
next
  case (Cons a pos)
  obtain k p where a: "a = (k, p)" by (cases a)
  from Cons.prems a have fresh: "k \<notin> fst ` set acc"
    by auto
  from Cons.prems a have "distinct (map fst (acc @ [(k, h p)]) @ map fst pos)"
    by auto
  then have "fold (\<lambda>(k, p) result. AList.update k (h p) result) pos (acc @ [(k, h p)])
               = (acc @ [(k, h p)]) @ map (\<lambda>(k, p). (k, h p)) pos"
    by (rule Cons.IH)
  then show ?case
    by (simp add: a update_fresh [OF fresh])
qed

lemma fold_min_Min: "fold min (map f ps) (f p) = Min (set (map f (p # ps)))"
  by (simp only: Min.set_eq_fold list.map)

lemma normalise_translate:
  assumes "distinct (map fst pos)" and "pos \<noteq> []"
  shows "normalise pos = translate (PAD - Min (xs_of pos)) (PAD - Min (ys_of pos)) pos"
proof -
  obtain e es where pos: "pos = e # es"
    using assms(2) by (cases pos) auto
  have mx: "fold min (map px (map snd es)) (px (snd e)) = Min (xs_of pos)"
    by (simp only: fold_min_Min) (simp add: xs_of_def pos split_def)
  have my: "fold min (map py (map snd es)) (py (snd e)) = Min (ys_of pos)"
    by (simp only: fold_min_Min) (simp add: ys_of_def pos split_def)
  have "normalise pos = fold (\<lambda>(k, p) result. AList.update k
      \<lparr>px = px p - Min (xs_of pos) + PAD, py = py p - Min (ys_of pos) + PAD\<rparr> result) pos []"
    using mx my by (simp add: normalise_def Let_def pos)
  also have "\<dots> = map (\<lambda>(k, p). (k, \<lparr>px = px p - Min (xs_of pos) + PAD,
                                    py = py p - Min (ys_of pos) + PAD\<rparr>)) pos"
    using fold_update_fresh [of "[]" pos] assms(1) by simp
  finally show ?thesis
    by (simp add: translate_def algebra_simps)
qed

lemma Min_shift:
  fixes A :: "real set"
  assumes "finite A" and "A \<noteq> {}"
  shows "Min ((\<lambda>x. x + t) ` A) = Min A + t"
proof (rule Min_eqI)
  show "finite ((\<lambda>x. x + t) ` A)"
    using assms(1) by simp
  show "Min A + t \<le> y" if "y \<in> (\<lambda>x. x + t) ` A" for y
    using that assms by auto
  show "Min A + t \<in> (\<lambda>x. x + t) ` A"
    using assms by (simp add: image_iff)
qed

lemma xs_of_translate: "xs_of (translate tx ty pos) = (\<lambda>x. x + tx) ` xs_of pos"
  by (force simp: xs_of_def translate_def split_def)

lemma ys_of_translate: "ys_of (translate tx ty pos) = (\<lambda>y. y + ty) ` ys_of pos"
  by (force simp: ys_of_def translate_def split_def)

lemma map_of_translate:
  "map_of (translate tx ty pos) k
     = map_option (\<lambda>p. \<lparr>px = px p + tx, py = py p + ty\<rparr>) (map_of pos k)"
  by (induction pos) (auto simp: translate_def)

text \<open>
  C5. For a non-empty node list, the returned object is the simulated object moved by one
  vector, the same for every key; its least \<open>x\<close> and its least \<open>y\<close> are both the padding,
  which is 40; and the displacement between any two keys is what it was before.
\<close>

theorem normalisation_anchors_at_padding:
  assumes "nodes \<noteq> []"
  shows "useForceLayout nodes edges
           = translate (PAD - Min (xs_of (simulate edges (seed nodes))))
               (PAD - Min (ys_of (simulate edges (seed nodes)))) (simulate edges (seed nodes))
       \<and> Min (xs_of (useForceLayout nodes edges)) = 40
       \<and> Min (ys_of (useForceLayout nodes edges)) = 40
       \<and> (\<forall>k1 k2 p1 p2 q1 q2.
             map_of (simulate edges (seed nodes)) k1 = Some p1
             \<and> map_of (simulate edges (seed nodes)) k2 = Some p2
             \<and> map_of (useForceLayout nodes edges) k1 = Some q1
             \<and> map_of (useForceLayout nodes edges) k2 = Some q2
             \<longrightarrow> px q2 - px q1 = px p2 - px p1 \<and> py q2 - py q1 = py p2 - py p1)"
proof -
  let ?sim = "simulate edges (seed nodes)"
  have ne: "?sim \<noteq> []"
  proof
    assume "?sim = []"
    then have "map fst (seed nodes) = []"
      using keys_simulate [of edges "seed nodes"] by simp
    then have "fst ` set (seed nodes) = {}"
      by simp
    then show False
      using assms by (simp add: keys_seed)
  qed
  have res: "useForceLayout nodes edges
               = translate (PAD - Min (xs_of ?sim)) (PAD - Min (ys_of ?sim)) ?sim"
    using assms normalise_translate [OF distinct_simulate ne]
    by (simp add: useForceLayout_def)
  have fx: "finite (xs_of ?sim)" "xs_of ?sim \<noteq> {}" and fy: "finite (ys_of ?sim)" "ys_of ?sim \<noteq> {}"
    using ne by (simp_all add: xs_of_def ys_of_def)
  have minx: "Min (xs_of (useForceLayout nodes edges)) = 40"
    by (simp only: res xs_of_translate Min_shift [OF fx]) (simp add: PAD_def)
  have miny: "Min (ys_of (useForceLayout nodes edges)) = 40"
    by (simp only: res ys_of_translate Min_shift [OF fy]) (simp add: PAD_def)
  have disp: "px q2 - px q1 = px p2 - px p1 \<and> py q2 - py q1 = py p2 - py p1"
    if "map_of ?sim k1 = Some p1" "map_of ?sim k2 = Some p2"
      "map_of (useForceLayout nodes edges) k1 = Some q1"
      "map_of (useForceLayout nodes edges) k2 = Some q2"
    for k1 k2 p1 p2 q1 q2
    using that by (auto simp: res map_of_translate)
  from res minx miny disp show ?thesis
    by blast
qed

theorem normalisation_anchors_at_padding_witness:
  "useForceLayout
     [\<lparr>node_id = ''orders'', node_label = ''orders'', node_row_count = 10, node_service = ''shop''\<rparr>] []
     = [(''shop:orders'', \<lparr>px = 40, py = 40\<rparr>)]
   \<and> Min (xs_of (useForceLayout
         [\<lparr>node_id = ''orders'', node_label = ''orders'', node_row_count = 10, node_service = ''shop''\<rparr>] []))
       = 40
   \<and> Min (ys_of (useForceLayout
         [\<lparr>node_id = ''orders'', node_label = ''orders'', node_row_count = 10, node_service = ''shop''\<rparr>] []))
       = 40"
proof -
  let ?n = "\<lparr>node_id = ''orders'', node_label = ''orders'', node_row_count = 10, node_service = ''shop''\<rparr>"
  have "[?n] \<noteq> []"
    by simp
  from normalisation_anchors_at_padding [OF this, of "[]"]
  have "Min (xs_of (useForceLayout [?n] [])) = 40" and "Min (ys_of (useForceLayout [?n] [])) = 40"
    by blast+
  moreover have "useForceLayout [?n] [] = [(''shop:orders'', \<lparr>px = 40, py = 40\<rparr>)]"
    by (simp add: useForceLayout_single node_key_def composite_key_def)
  ultimately show ?thesis
    by blast
qed

section \<open>Edges and services\<close>







section \<open>Repulsion\<close>

lemma distance_nonneg [simp]: "0 \<le> distance p q"
  by (simp add: distance_def)

lemma distance_squared:
  "(distance p q)\<^sup>2 = (px q - px p) * (px q - px p) + (py q - py p) * (py q - py p)"
  by (simp add: distance_def)

lemma cmod_displacement: "cmod (Complex (px q - px p) (py q - py p)) = distance p q"
  by (simp add: cmod_def distance_def power2_eq_square)

lemma cmod_direction:
  assumes "0 < distance p q"
  shows "cmod (direction p q) = 1"
proof -
  have "direction p q = of_real (1 / distance p q) * Complex (px q - px p) (py q - py p)"
    by (simp add: direction_def complex_eq_iff)
  then have "cmod (direction p q) = \<bar>1 / distance p q\<bar> * distance p q"
    by (simp only: norm_mult norm_of_real cmod_displacement)
  then show ?thesis
    using assms by simp
qed

lemma repel_vec_far:
  assumes "1 \<le> distance p q"
  shows "repel_vec p q = of_real (inverse_square p q) * direction p q"
proof -
  let ?d2 = "(px q - px p) * (px q - px p) + (py q - py p) * (py q - py p)"
  have "1 \<le> (distance p q)\<^sup>2"
    using assms by (simp add: one_le_power)
  then have m: "max ?d2 1 = ?d2"
    by (simp add: distance_squared)
  show ?thesis
    by (simp add: repel_vec_def repel_force_def Let_def m inverse_square_def direction_def
        distance_squared complex_eq_iff) (simp add: distance_def mult.commute)
qed

lemma repel_vec_near:
  assumes "distance p q \<le> 1"
  shows "repel_vec p q = of_real REPEL * Complex (px q - px p) (py q - py p)"
proof -
  let ?d2 = "(px q - px p) * (px q - px p) + (py q - py p) * (py q - py p)"
  have "(distance p q)\<^sup>2 \<le> 1"
    using assms by (simp add: power_le_one)
  then have m: "max ?d2 1 = 1"
    by (simp add: distance_squared)
  show ?thesis
    by (simp add: repel_vec_def repel_force_def Let_def m complex_eq_iff)
qed

lemma map_of_pushed:
  assumes "distinct (map fst pos)" and "(k, p) \<in> set pos"
  shows "map_of (map (\<lambda>(k, p). (k, pushed (f k p) p)) pos) k = Some (pushed (f k p) p)"
  using assms by (simp add: map_of_mapped)

text \<open>
  C3, as the code has it. After the repulsion loops of an iteration the object at every
  key has kept its place, and its velocity has received, for every other key, the
  opposite of the vector \<open>repel_vec\<close> from itself to the other object; the two objects of a
  pair receive opposite vectors. When the two objects are at least one unit apart, that
  vector is \<open>REPEL / d\<^sup>2 = 18000 / max(d\<^sup>2, 1)\<close> times the unit vector between them, so the
  contribution has that magnitude and points away from the other object. When they
  are less than one unit apart, the displacement is divided by one and not by the
  distance: the vector is \<open>18000\<close> times the displacement, of magnitude \<open>18000 * d\<close>.
\<close>

theorem repulsion_contributions:
  "(distinct (map fst pos) \<and> (k, p) \<in> set pos \<longrightarrow>
      map_of (repulsion (map fst pos) pos) k
        = Some (pushed (- (\<Sum>q \<leftarrow> others pos k. repel_vec p q)) p))
   \<and> repel_vec q p = - repel_vec p q
   \<and> (1 \<le> distance p q \<longrightarrow>
        repel_vec p q = of_real (inverse_square p q) * direction p q
        \<and> cmod (repel_vec p q) = 18000 / max ((distance p q)\<^sup>2) 1)
   \<and> (distance p q \<le> 1 \<longrightarrow>
        repel_vec p q = of_real 18000 * Complex (px q - px p) (py q - py p)
        \<and> cmod (repel_vec p q) = 18000 * distance p q)"
proof (intro conjI impI)
  assume "distinct (map fst pos) \<and> (k, p) \<in> set pos"
  then show "map_of (repulsion (map fst pos) pos) k
               = Some (pushed (- (\<Sum>q \<leftarrow> others pos k. repel_vec p q)) p)"
    using map_of_pushed [of pos k p "repulsion_at pos"]
    by (simp add: repulsion_kick repulsion_at_def)
next
  show "repel_vec q p = - repel_vec p q"
    by (rule repel_vec_antisym)
next
  assume far: "1 \<le> distance p q"
  then show "repel_vec p q = of_real (inverse_square p q) * direction p q"
    by (rule repel_vec_far)
  have "cmod (repel_vec p q) = \<bar>inverse_square p q\<bar> * cmod (direction p q)"
    by (simp only: repel_vec_far [OF far] norm_mult norm_of_real)
  also have "\<dots> = inverse_square p q"
    using far by (simp add: cmod_direction inverse_square_def REPEL_def)
  finally show "cmod (repel_vec p q) = 18000 / max ((distance p q)\<^sup>2) 1"
    by (simp add: inverse_square_def REPEL_def)
next
  assume near: "distance p q \<le> 1"
  then show "repel_vec p q = of_real 18000 * Complex (px q - px p) (py q - py p)"
    using repel_vec_near [of p q] by (simp add: REPEL_def)
  have "cmod (repel_vec p q) = \<bar>REPEL\<bar> * cmod (Complex (px q - px p) (py q - py p))"
    by (simp only: repel_vec_near [OF near] norm_mult norm_of_real)
  then show "cmod (repel_vec p q) = 18000 * distance p q"
    by (simp add: cmod_displacement REPEL_def)
qed

lemma sqrt_25: "sqrt 25 = 5"
  by (rule real_sqrt_unique) simp_all

lemma repel_force_3_4:
  "repel_force \<lparr>px = 0, py = 0, vx = 0, vy = 0\<rparr> \<lparr>px = 3, py = 4, vx = 0, vy = 0\<rparr> = (432, 576)"
  by (simp add: repel_force_def REPEL_def sqrt_25)

lemma repel_force_half:
  "repel_force \<lparr>px = 0, py = 0, vx = 0, vy = 0\<rparr> \<lparr>px = 1 / 2, py = 0, vx = 0, vy = 0\<rparr> = (9000, 0)"
  by (simp add: repel_force_def REPEL_def)

theorem repulsion_contributions_witness:
  "map_of (repulsion [''s:a'', ''s:b'']
      [(''s:a'', \<lparr>px = 0, py = 0, vx = 0, vy = 0\<rparr>), (''s:b'', \<lparr>px = 3, py = 4, vx = 0, vy = 0\<rparr>)]) ''s:a''
     = Some \<lparr>px = 0, py = 0, vx = - 432, vy = - 576\<rparr>
   \<and> cmod (repel_vec \<lparr>px = 0, py = 0, vx = 0, vy = 0\<rparr> \<lparr>px = 3, py = 4, vx = 0, vy = 0\<rparr>) = 720
   \<and> cmod (repel_vec \<lparr>px = 0, py = 0, vx = 0, vy = 0\<rparr> \<lparr>px = 1 / 2, py = 0, vx = 0, vy = 0\<rparr>) = 9000"
proof -
  let ?A = "\<lparr>px = 0, py = 0, vx = 0, vy = 0\<rparr> :: particle"
  let ?B = "\<lparr>px = 3, py = 4, vx = 0, vy = 0\<rparr> :: particle"
  let ?C = "\<lparr>px = 1 / 2, py = 0, vx = 0, vy = 0\<rparr> :: particle"
  let ?pos = "[(''s:a'', ?A), (''s:b'', ?B)]"
  have dB: "distance ?A ?B = 5" and dC: "distance ?A ?C = 1 / 2"
    by (simp_all add: distance_def sqrt_25 real_sqrt_divide)
  note far = repulsion_contributions [where pos = ?pos and k = "''s:a''" and p = ?A and q = ?B]
  note near = repulsion_contributions [where pos = ?pos and k = "''s:a''" and p = ?A and q = ?C]
  have "distinct (map fst ?pos) \<and> (''s:a'', ?A) \<in> set ?pos"
    by simp
  with far have "map_of (repulsion (map fst ?pos) ?pos) ''s:a''
                   = Some (pushed (- (\<Sum>q \<leftarrow> others ?pos ''s:a''. repel_vec ?A q)) ?A)"
    by blast
  then have "map_of (repulsion [''s:a'', ''s:b''] ?pos) ''s:a''
               = Some \<lparr>px = 0, py = 0, vx = - 432, vy = - 576\<rparr>"
    by (simp add: others_def repel_vec_def repel_force_3_4 pushed_def)
  moreover have "1 \<le> distance ?A ?B"
    by (simp add: dB)
  with far have "cmod (repel_vec ?A ?B) = 18000 / max ((distance ?A ?B)\<^sup>2) 1"
    by blast
  then have "cmod (repel_vec ?A ?B) = 720"
    by (simp add: dB)
  moreover have "distance ?A ?C \<le> 1"
    by (simp add: dC)
  with near have "cmod (repel_vec ?A ?C) = 18000 * distance ?A ?C"
    by blast
  then have "cmod (repel_vec ?A ?C) = 9000"
    by (simp add: dC)
  ultimately show ?thesis
    by blast
qed

text \<open>
  C3 as stated fails for two objects less than one unit apart. At a distance of one half
  the stated magnitude \<open>18000 / max(d\<^sup>2, 1)\<close> is 18000, and the loops change the two
  velocities by 9000.
\<close>

theorem repulsion_magnitude_counterexample:
  "repulsion [''s:a'', ''s:b'']
     [(''s:a'', \<lparr>px = 0, py = 0, vx = 0, vy = 0\<rparr>), (''s:b'', \<lparr>px = 1 / 2, py = 0, vx = 0, vy = 0\<rparr>)]
     = [(''s:a'', \<lparr>px = 0, py = 0, vx = - 9000, vy = 0\<rparr>),
        (''s:b'', \<lparr>px = 1 / 2, py = 0, vx = 9000, vy = 0\<rparr>)]
   \<and> cmod (repel_vec \<lparr>px = 0, py = 0, vx = 0, vy = 0\<rparr> \<lparr>px = 1 / 2, py = 0, vx = 0, vy = 0\<rparr>) = 9000
   \<and> inverse_square \<lparr>px = 0, py = 0, vx = 0, vy = 0\<rparr> \<lparr>px = 1 / 2, py = 0, vx = 0, vy = 0\<rparr> = 18000"
  by (simp add: repulsion_def repel_def repel_force_half upt_rec repel_vec_def cmod_def
      inverse_square_def distance_squared REPEL_def)

section \<open>Springs\<close>

lemma spring_vec_apart:
  assumes "0 < distance ps pt"
  shows "spring_vec ps pt = of_real (hookean ps pt) * direction ps pt"
proof -
  have "sqrt ((px pt - px ps) * (px pt - px ps) + (py pt - py ps) * (py pt - py ps)) \<noteq> 0"
    using assms unfolding distance_def by linarith
  then show ?thesis
    by (simp add: spring_vec_def spring_force_def Let_def hookean_def direction_def
        distance_def complex_eq_iff)
qed

lemma spring_vec_coincident:
  assumes "distance ps pt = 0"
  shows "spring_vec ps pt = 0"
proof -
  have "(px pt - px ps) * (px pt - px ps) + (py pt - py ps) * (py pt - py ps) = 0"
    using assms by (simp add: distance_def)
  then have "px pt - px ps = 0" and "py pt - py ps = 0"
    by (simp_all add: sum_squares_eq_zero_iff)
  then show ?thesis
    by (simp add: spring_vec_def spring_force_def Let_def complex_eq_iff)
qed

text \<open>
  C4, as the code has it. After the edge loop of an iteration the object at every key has
  kept its place, and its velocity has received the sum, over the edge list with its
  repetitions, of what each edge adds: nothing when an endpoint key is missing, and
  otherwise the vector \<open>spring_vec\<close> at the source key and its opposite at the target key.
  For endpoints at different places that vector is \<open>(d - 352) * 0.04\<close> times the unit
  vector from the source to the target, where \<open>d\<close> is their distance and
  \<open>352 = GAP * 1.6\<close>. For endpoints at the same place, as those of an edge from a table to
  itself, the vector is zero.
\<close>

theorem spring_contributions:
  "(distinct (map fst pos) \<and> (k, p) \<in> set pos \<longrightarrow>
      map_of (attraction edges pos) k = Some (pushed (\<Sum>e \<leftarrow> edges. edge_pull pos e k) p))
   \<and> (map_of pos (source_key e) = Some ps \<and> map_of pos (target_key e) = Some pt \<longrightarrow>
        edge_pull pos e k
          = (if k = source_key e then spring_vec ps pt else 0)
            - (if k = target_key e then spring_vec ps pt else 0))
   \<and> (map_of pos (source_key e) = None \<or> map_of pos (target_key e) = None \<longrightarrow>
        edge_pull pos e k = 0)
   \<and> (0 < distance ps pt \<longrightarrow>
        spring_vec ps pt = of_real ((distance ps pt - 352) * (4 / 100)) * direction ps pt
        \<and> cmod (spring_vec ps pt) = \<bar>distance ps pt - 352\<bar> * (4 / 100))
   \<and> (distance ps pt = 0 \<longrightarrow> spring_vec ps pt = 0)"
proof (intro conjI impI)
  assume "distinct (map fst pos) \<and> (k, p) \<in> set pos"
  then show "map_of (attraction edges pos) k = Some (pushed (\<Sum>e \<leftarrow> edges. edge_pull pos e k) p)"
    using map_of_pushed [of pos k p "\<lambda>k p. attraction_at pos edges k"]
    by (simp add: attraction_kick attraction_at_def)
next
  assume "map_of pos (source_key e) = Some ps \<and> map_of pos (target_key e) = Some pt"
  then show "edge_pull pos e k
               = (if k = source_key e then spring_vec ps pt else 0)
                 - (if k = target_key e then spring_vec ps pt else 0)"
    by (simp add: edge_pull_def spring_delta_def)
next
  assume "map_of pos (source_key e) = None \<or> map_of pos (target_key e) = None"
  then show "edge_pull pos e k = 0"
    by (auto simp: edge_pull_def spring_delta_def split: option.splits)
next
  assume apart: "0 < distance ps pt"
  have h: "hookean ps pt = (distance ps pt - 352) * (4 / 100)"
    by (simp add: hookean_def GAP_def ATTRACT_def)
  show "spring_vec ps pt = of_real ((distance ps pt - 352) * (4 / 100)) * direction ps pt"
    by (simp only: spring_vec_apart [OF apart] h)
  have "cmod (spring_vec ps pt) = \<bar>hookean ps pt\<bar> * cmod (direction ps pt)"
    by (simp only: spring_vec_apart [OF apart] norm_mult norm_of_real)
  then show "cmod (spring_vec ps pt) = \<bar>distance ps pt - 352\<bar> * (4 / 100)"
    by (simp add: cmod_direction [OF apart] h abs_mult)
next
  assume "distance ps pt = 0"
  then show "spring_vec ps pt = 0"
    by (rule spring_vec_coincident)
qed

lemma sqrt_250000: "sqrt 250000 = 500"
  by (rule real_sqrt_unique) simp_all

theorem spring_contributions_witness:
  "map_of (attraction
      [\<lparr>edge_source = ''a'', edge_target = ''b'', edge_source_column = ''b_id'',
        edge_target_column = ''id'', edge_service = ''s'', edge_inferred = False\<rparr>,
       \<lparr>edge_source = ''a'', edge_target = ''b'', edge_source_column = ''b_id'',
        edge_target_column = ''id'', edge_service = ''s'', edge_inferred = False\<rparr>]
      [(''s:a'', \<lparr>px = 0, py = 0, vx = 0, vy = 0\<rparr>), (''s:b'', \<lparr>px = 300, py = 400, vx = 0, vy = 0\<rparr>)])
     ''s:a''
     = Some \<lparr>px = 0, py = 0, vx = 888 / 125, vy = 1184 / 125\<rparr>
   \<and> cmod (spring_vec \<lparr>px = 0, py = 0, vx = 0, vy = 0\<rparr> \<lparr>px = 300, py = 400, vx = 0, vy = 0\<rparr>)
       = 148 / 25
   \<and> spring_vec \<lparr>px = 0, py = 0, vx = 0, vy = 0\<rparr> \<lparr>px = 0, py = 0, vx = 0, vy = 0\<rparr> = 0
   \<and> edge_pull [(''s:a'', \<lparr>px = 0, py = 0, vx = 0, vy = 0\<rparr>), (''s:b'', \<lparr>px = 300, py = 400, vx = 0, vy = 0\<rparr>)]
       \<lparr>edge_source = ''a'', edge_target = ''c'', edge_source_column = ''c_id'',
        edge_target_column = ''id'', edge_service = ''s'', edge_inferred = False\<rparr> ''s:a'' = 0"
proof -
  let ?A = "\<lparr>px = 0, py = 0, vx = 0, vy = 0\<rparr> :: particle"
  let ?B = "\<lparr>px = 300, py = 400, vx = 0, vy = 0\<rparr> :: particle"
  let ?pos = "[(''s:a'', ?A), (''s:b'', ?B)]"
  let ?ab = "\<lparr>edge_source = ''a'', edge_target = ''b'', edge_source_column = ''b_id'',
               edge_target_column = ''id'', edge_service = ''s'', edge_inferred = False\<rparr>"
  let ?ac = "\<lparr>edge_source = ''a'', edge_target = ''c'', edge_source_column = ''c_id'',
               edge_target_column = ''id'', edge_service = ''s'', edge_inferred = False\<rparr>"
  have dB: "distance ?A ?B = 500" and dA: "distance ?A ?A = 0"
    by (simp_all add: distance_def sqrt_250000)
  have keys: "source_key ?ab = ''s:a''" "target_key ?ab = ''s:b''"
    "source_key ?ac = ''s:a''" "target_key ?ac = ''s:c''"
    by (simp_all add: source_key_def target_key_def composite_key_def)
  note ab = spring_contributions
    [where pos = ?pos and k = "''s:a''" and p = ?A and edges = "[?ab, ?ab]" and e = ?ab
       and ps = ?A and pt = ?B]
  note ac = spring_contributions
    [where pos = ?pos and k = "''s:a''" and p = ?A and edges = "[]" and e = ?ac
       and ps = ?A and pt = ?A]
  have "0 < distance ?A ?B"
    by (simp add: dB)
  with ab have vec: "spring_vec ?A ?B = of_real ((distance ?A ?B - 352) * (4 / 100)) * direction ?A ?B"
    and len: "cmod (spring_vec ?A ?B) = \<bar>distance ?A ?B - 352\<bar> * (4 / 100)"
    by blast+
  have "map_of ?pos (source_key ?ab) = Some ?A \<and> map_of ?pos (target_key ?ab) = Some ?B"
    by (simp add: keys)
  with ab have pull: "edge_pull ?pos ?ab ''s:a''
      = (if ''s:a'' = source_key ?ab then spring_vec ?A ?B else 0)
        - (if ''s:a'' = target_key ?ab then spring_vec ?A ?B else 0)"
    by blast
  have "distinct (map fst ?pos) \<and> (''s:a'', ?A) \<in> set ?pos"
    by simp
  with ab have "map_of (attraction [?ab, ?ab] ?pos) ''s:a''
                  = Some (pushed (\<Sum>e \<leftarrow> [?ab, ?ab]. edge_pull ?pos e ''s:a'') ?A)"
    by blast
  then have "map_of (attraction [?ab, ?ab] ?pos) ''s:a''
               = Some \<lparr>px = 0, py = 0, vx = 888 / 125, vy = 1184 / 125\<rparr>"
    by (simp add: pull keys vec dB direction_def pushed_def)
  moreover have "cmod (spring_vec ?A ?B) = 148 / 25"
    using len by (simp add: dB)
  moreover have "spring_vec ?A ?A = 0"
    using ac dA by blast
  moreover have "map_of ?pos (source_key ?ac) = None \<or> map_of ?pos (target_key ?ac) = None"
    by (simp add: keys)
  with ac have "edge_pull ?pos ?ac ''s:a'' = 0"
    by blast
  ultimately show ?thesis
    by blast
qed

text \<open>
  C4 as stated fails for an edge from a table to itself. Both endpoint keys are present
  and the distance is 0, so the stated magnitude is \<open>|0 - 352| * 0.04 = 14.08\<close>; the edge
  loop computes the vector zero and leaves the position object as it was.
\<close>

theorem self_reference_counterexample:
  "seed [\<lparr>node_id = ''employees'', node_label = ''employees'', node_row_count = 7, node_service = ''hr''\<rparr>]
     = [(''hr:employees'', \<lparr>px = 620, py = 300, vx = 0, vy = 0\<rparr>)]
   \<and> source_key \<lparr>edge_source = ''employees'', edge_target = ''employees'', edge_source_column = ''manager_id'',
         edge_target_column = ''id'', edge_service = ''hr'', edge_inferred = False\<rparr> = ''hr:employees''
   \<and> target_key \<lparr>edge_source = ''employees'', edge_target = ''employees'', edge_source_column = ''manager_id'',
         edge_target_column = ''id'', edge_service = ''hr'', edge_inferred = False\<rparr> = ''hr:employees''
   \<and> attraction
       [\<lparr>edge_source = ''employees'', edge_target = ''employees'', edge_source_column = ''manager_id'',
         edge_target_column = ''id'', edge_service = ''hr'', edge_inferred = False\<rparr>]
       [(''hr:employees'', \<lparr>px = 620, py = 300, vx = 0, vy = 0\<rparr>)]
     = [(''hr:employees'', \<lparr>px = 620, py = 300, vx = 0, vy = 0\<rparr>)]
   \<and> spring_force \<lparr>px = 620, py = 300, vx = 0, vy = 0\<rparr> \<lparr>px = 620, py = 300, vx = 0, vy = 0\<rparr> = (0, 0)
   \<and> distance \<lparr>px = 620, py = 300, vx = 0, vy = 0\<rparr> \<lparr>px = 620, py = 300, vx = 0, vy = 0\<rparr> = 0
   \<and> \<bar>hookean \<lparr>px = 620, py = 300, vx = 0, vy = 0\<rparr> \<lparr>px = 620, py = 300, vx = 0, vy = 0\<rparr>\<bar> = 352 / 25"
  by (simp add: seed_single node_key_def source_key_def target_key_def composite_key_def
      attraction_def attract_def spring_def spring_force_def hookean_def distance_def
      GAP_def ATTRACT_def)

section \<open>Nodes without edges\<close>

subsection \<open>The seed is a ring\<close>

lemma seed_particle_ring: "seed_particle len i = ring_particle len (seed_radius len) 0 i"
  by (simp add: seed_particle_def ring_particle_def seed_radius_def seed_angle_def Let_def)

lemma fold_seed_fresh:
  "distinct (map fst acc @ map (\<lambda>a. node_key (fst a)) nis) \<Longrightarrow>
   fold (\<lambda>(n, i) pos. AList.update (node_key n) (g i) pos) nis acc
     = acc @ map (\<lambda>(n, i). (node_key n, g i)) nis"
proof (induction nis arbitrary: acc)
  case Nil
  show ?case by simp
next
  case (Cons a nis)
  obtain n i where a: "a = (n, i)" by (cases a)
  from Cons.prems a have fresh: "node_key n \<notin> fst ` set acc"
    by auto
  from Cons.prems a have "distinct (map fst (acc @ [(node_key n, g i)]) @ map (\<lambda>a. node_key (fst a)) nis)"
    by auto
  then have "fold (\<lambda>(n, i) pos. AList.update (node_key n) (g i) pos) nis (acc @ [(node_key n, g i)])
               = (acc @ [(node_key n, g i)]) @ map (\<lambda>(n, i). (node_key n, g i)) nis"
    by (rule Cons.IH)
  then show ?case
    by (simp add: a update_fresh [OF fresh])
qed

lemma zip_indices: "zip xs [0..<length xs] = map (\<lambda>i. (xs ! i, i)) [0..<length xs]"
  by (rule nth_equalityI) simp_all

lemma seed_ring:
  assumes "distinct (map node_key nodes)"
  shows "seed nodes = ring (map node_key nodes) (seed_radius (length nodes)) 0"
proof -
  let ?N = "length nodes"
  have "map (\<lambda>a. node_key (fst a)) (zip nodes [0..<?N]) = map node_key (map fst (zip nodes [0..<?N]))"
    by (simp only: map_map comp_def)
  also have "\<dots> = map node_key nodes"
    by (simp add: map_fst_zip)
  finally have "distinct (map fst [] @ map (\<lambda>a. node_key (fst a)) (zip nodes [0..<?N]))"
    using assms by simp
  from fold_seed_fresh [OF this, of "seed_particle ?N"]
  have "seed nodes = map (\<lambda>(n, i). (node_key n, seed_particle ?N i)) (zip nodes [0..<?N])"
    unfolding seed_def by simp
  also have "\<dots> = map (\<lambda>i. (node_key (nodes ! i), seed_particle ?N i)) [0..<?N]"
    by (simp only: zip_indices map_map comp_def split_conv)
  also have "\<dots> = ring (map node_key nodes) (seed_radius ?N) 0"
    unfolding ring_def by (simp add: seed_particle_ring)
  finally show ?thesis .
qed

lemma keys_ring [simp]: "map fst (ring ks rho nu) = ks"
  unfolding ring_def by (rule nth_equalityI) simp_all

lemma others_ring:
  assumes "distinct ks" and "i < length ks"
  shows "others (ring ks rho nu) (ks ! i)
           = map (ring_particle (length ks) rho nu) (filter (\<lambda>j. j \<noteq> i) [0..<length ks])"
proof -
  have "filter (\<lambda>j. ks ! j \<noteq> ks ! i) [0..<length ks] = filter (\<lambda>j. j \<noteq> i) [0..<length ks]"
    using assms by (intro filter_cong refl) (simp add: nth_eq_iff_index_eq)
  then show ?thesis
    by (simp add: others_def ring_def filter_map comp_def)
qed

subsection \<open>The points of the unit circle at the seed angles\<close>

lemma shift_mod:
  fixes i j len :: nat
  assumes "i < len" and "j < len"
  shows "(j + len - i) mod len = (if i \<le> j then j - i else j + len - i)"
proof (cases "i \<le> j")
  case True
  then have "j + len - i = (j - i) + len"
    by arith
  then have "(j + len - i) mod len = (j - i) mod len"
    by (simp only: mod_add_self2)
  with True assms show ?thesis
    by simp
next
  case False
  with assms show ?thesis
    by simp
qed

lemma unshift_mod:
  fixes i k len :: nat
  assumes "i < len" and "k < len"
  shows "(k + i) mod len = (if k + i < len then k + i else k + i - len)"
proof (cases "k + i < len")
  case True
  then show ?thesis by simp
next
  case False
  then have "k + i = (k + i - len) + len"
    by arith
  then have "(k + i) mod len = (k + i - len) mod len"
    by (metis mod_add_self2)
  moreover have "k + i - len < len"
    using assms by arith
  ultimately show ?thesis
    using False by simp
qed

lemma seed_angle_diff:
  assumes "i \<le> j"
  shows "seed_angle len (j - i) = seed_angle len j - seed_angle len i"
proof -
  have "real (j - i) = real j - real i"
    using assms by (simp add: of_nat_diff)
  then show ?thesis
    by (simp add: seed_angle_def right_diff_distrib diff_divide_distrib)
qed

lemma seed_angle_add_len:
  assumes "0 < len"
  shows "seed_angle len (m + len) = seed_angle len m + 2 * pi"
  using assms by (simp add: seed_angle_def distrib_left add_divide_distrib)

lemma cis_add_turn: "cis (x + 2 * pi) = cis x"
proof -
  have "cis (x + 2 * pi) = cis x * cis (2 * pi)"
    by (simp only: cis_mult)
  then show ?thesis by simp
qed

lemma root_add_len:
  assumes "0 < len"
  shows "unit_root len (m + len) = unit_root len m"
  by (simp only: unit_root_def seed_angle_add_len [OF assms] cis_add_turn)

lemma root_diff:
  assumes "i < len" and "j < len"
  shows "cis (seed_angle len j - seed_angle len i) = unit_root len ((j + len - i) mod len)"
proof (cases "i \<le> j")
  case True
  then show ?thesis
    by (simp add: shift_mod [OF assms] unit_root_def seed_angle_diff)
next
  case False
  then have "i - j \<le> len" and "j \<le> i"
    using assms by simp_all
  then have "j + len - i + (i - j) = len" 
    by simp
  have "unit_root len (j + len - i) = unit_root len ((j + len - i) + len)"
    using assms by (simp only: root_add_len)
  also have "(j + len - i) + len = (j + len) + len - i"
    using assms by simp
  also have "unit_root len ((j + len) + len - i) = cis (seed_angle len ((j + len) + len) - seed_angle len i)"
    using assms by (simp add: unit_root_def seed_angle_diff)
  also have "seed_angle len ((j + len) + len) = seed_angle len j + 2 * pi + 2 * pi"
    using assms by (simp add: seed_angle_add_len)
  also have "cis (seed_angle len j + 2 * pi + 2 * pi - seed_angle len i)
               = cis ((seed_angle len j - seed_angle len i) + 2 * pi + 2 * pi)"
    by (simp add: algebra_simps)
  also have "\<dots> = cis (seed_angle len j - seed_angle len i)"
    by (simp only: cis_add_turn)
  finally show ?thesis
    using False by (simp add: shift_mod [OF assms])
qed

lemma root_reflect:
  assumes "0 < k" and "k < len"
  shows "unit_root len (len - k) = cnj (unit_root len k)"
proof -
  have "cis (seed_angle len 0 - seed_angle len k) = unit_root len ((0 + len - k) mod len)"
    using assms by (intro root_diff) simp_all
  moreover have "seed_angle len 0 = 0"
    by (simp add: seed_angle_def)
  moreover have "(0 + len - k) mod len = len - k"
    using assms by simp
  ultimately show ?thesis
    by (simp add: unit_root_def cis_cnj)
qed

lemma root_left_of_one:
  assumes "0 < k" and "k < len"
  shows "Re (unit_root len k) < 1"
proof -
  let ?h = "pi * real k / real len"
  have "0 < ?h"
    using assms by simp
  moreover have "?h < pi"
    using assms by (simp add: field_simps)
  ultimately have "0 < sin ?h"
    by (rule sin_gt_zero)
  then have "0 < (sin ?h)\<^sup>2"
    by simp
  moreover have "seed_angle len k = 2 * ?h"
    by (simp add: seed_angle_def)
  then have "cos (seed_angle len k) = 1 - 2 * (sin ?h)\<^sup>2"
    by (simp only: cos_double_sin)
  ultimately show ?thesis
    by (simp add: unit_root_def)
qed

lemma roots_differ:
  assumes "i < len" and "j < len" and "i \<noteq> j"
  shows "unit_root len j \<noteq> unit_root len i"
proof
  assume eq: "unit_root len j = unit_root len i"
  let ?m = "(j + len - i) mod len"
  have "unit_root len j / unit_root len i = cis (seed_angle len j - seed_angle len i)"
    unfolding unit_root_def by (rule cis_divide)
  also have "\<dots> = unit_root len ?m"
    by (rule root_diff [OF assms(1, 2)])
  finally have "unit_root len ?m = unit_root len j / unit_root len i"
    by simp
  moreover have "unit_root len i \<noteq> 0"
    by (simp add: unit_root_def)
  ultimately have one: "unit_root len ?m = 1"
    by (simp add: eq)
  have "?m \<noteq> 0"
    unfolding shift_mod [OF assms(1, 2)] using assms by (auto; arith)
  moreover have "?m < len"
    using assms by simp
  ultimately have "Re (unit_root len ?m) < 1"
    by (intro root_left_of_one) simp_all
  with one show False
    by simp
qed

lemma sum_shift:
  fixes f :: "nat \<Rightarrow> complex"
  assumes "i < len"
  shows "(\<Sum>j \<in> {0..<len} - {i}. f ((j + len - i) mod len)) = (\<Sum>k \<in> {1..<len}. f k)"
proof (rule sum.reindex_bij_witness [where i = "\<lambda>k. (k + i) mod len" and j = "\<lambda>j. (j + len - i) mod len"])
  fix j assume "j \<in> {0..<len} - {i}"
  then have j: "j < len" "j \<noteq> i"
    by simp_all
  have m: "(j + len - i) mod len < len"
    using assms by simp
  show "((j + len - i) mod len + i) mod len = j"
    unfolding unshift_mod [OF assms m] unfolding shift_mod [OF assms j(1)]
    using j assms by (auto; arith)
  show "(j + len - i) mod len \<in> {1..<len}"
    unfolding shift_mod [OF assms j(1)] using j assms by (auto; arith)
  show "f ((j + len - i) mod len) = f ((j + len - i) mod len)"
    by simp
next
  fix k assume "k \<in> {1..<len}"
  then have k: "0 < k" "k < len"
    by simp_all
  have m: "(k + i) mod len < len"
    using assms by simp
  show "((k + i) mod len + len - i) mod len = k"
    unfolding shift_mod [OF assms m] unfolding unshift_mod [OF assms k(2)]
    using k assms by (auto; arith)
  show "(k + i) mod len \<in> {0..<len} - {i}"
    unfolding unshift_mod [OF assms k(2)] using k assms by (auto; arith)
qed

lemma sum_reflect:
  fixes f :: "nat \<Rightarrow> complex"
  shows "(\<Sum>k \<in> {1..<len}. f (len - k)) = (\<Sum>k \<in> {1..<len}. f k)"
  by (rule sum.reindex_bij_witness [where i = "\<lambda>k. len - k" and j = "\<lambda>k. len - k"]) auto

subsection \<open>The repulsion on an object of a ring\<close>

lemma coef_pos: "0 < coef d"
proof -
  have "0 < max (d\<^sup>2) 1"
    by simp
  then show ?thesis
    by (simp add: coef_def REPEL_def)
qed

lemma repel_vec_coef:
  "repel_vec p q = of_real (coef (distance p q)) * Complex (px q - px p) (py q - py p)"
proof -
  define m where "m = max ((px q - px p) * (px q - px p) + (py q - py p) * (py q - py p)) 1"
  have c: "coef (distance p q) = REPEL / m / sqrt m"
    by (simp add: coef_def distance_squared m_def)
  have f: "repel_force p q = ((px q - px p) / sqrt m * (REPEL / m), (py q - py p) / sqrt m * (REPEL / m))"
    by (simp add: repel_force_def Let_def m_def)
  show ?thesis
    by (simp add: repel_vec_def f c complex_eq_iff mult.commute)
qed

lemma ring_displacement:
  "Complex (px (ring_particle len rho nu j) - px (ring_particle len rho nu i))
           (py (ring_particle len rho nu j) - py (ring_particle len rho nu i))
     = of_real rho * (unit_root len j - unit_root len i)"
  by (simp add: ring_particle_def unit_root_def complex_eq_iff algebra_simps)

lemma unit_root_factor:
  assumes "i < len" and "j < len"
  shows "unit_root len j - unit_root len i
           = unit_root len i * (unit_root len ((j + len - i) mod len) - 1)"
proof -
  have "unit_root len i * unit_root len ((j + len - i) mod len)
          = cis (seed_angle len i) * cis (seed_angle len j - seed_angle len i)"
    by (simp only: root_diff [OF assms] unit_root_def)
  also have "\<dots> = unit_root len j"
    by (simp add: cis_mult unit_root_def)
  finally show ?thesis
    by (simp add: algebra_simps)
qed

lemma distance_ring:
  assumes "i < len" and "j < len"
  shows "distance (ring_particle len rho nu i) (ring_particle len rho nu j)
           = \<bar>rho\<bar> * cmod (unit_root len ((j + len - i) mod len) - 1)"
proof -
  have "distance (ring_particle len rho nu i) (ring_particle len rho nu j)
          = cmod (of_real rho * (unit_root len j - unit_root len i))"
    by (simp only: cmod_displacement [symmetric] ring_displacement)
  also have "\<dots> = \<bar>rho\<bar> * (cmod (unit_root len i) * cmod (unit_root len ((j + len - i) mod len) - 1))"
    by (simp only: unit_root_factor [OF assms] norm_mult norm_of_real)
  finally show ?thesis
    by (simp add: unit_root_def)
qed

lemma repel_ring:
  assumes "i < len" and "j < len"
  shows "repel_vec (ring_particle len rho nu i) (ring_particle len rho nu j)
           = - (of_real rho * unit_root len i * ring_term len rho ((j + len - i) mod len))"
  by (simp only: repel_vec_coef ring_displacement distance_ring [OF assms]
      unit_root_factor [OF assms] ring_term_def) (simp add: algebra_simps)

lemma ring_term_reflect:
  assumes "0 < k" and "k < len"
  shows "ring_term len rho (len - k) = cnj (ring_term len rho k)"
proof -
  have "cmod (cnj (unit_root len k) - 1) = cmod (cnj (unit_root len k - 1))"
    by simp
  then have "cmod (cnj (unit_root len k) - 1) = cmod (unit_root len k - 1)"
    by (simp only: complex_mod_cnj)
  then show ?thesis
    by (simp add: ring_term_def root_reflect [OF assms])
qed

lemma ring_sum_real: "Im (\<Sum>k \<in> {1..<len}. ring_term len rho k) = 0"
proof -
  define S where "S = (\<Sum>k \<in> {1..<len}. ring_term len rho k)"
  have "S = (\<Sum>k \<in> {1..<len}. ring_term len rho (len - k))"
    unfolding S_def by (simp only: sum_reflect)
  also have "\<dots> = (\<Sum>k \<in> {1..<len}. cnj (ring_term len rho k))"
    by (intro sum.cong refl ring_term_reflect) simp_all
  also have "\<dots> = cnj S"
    unfolding S_def by simp
  finally have "Im S = Im (cnj S)"
    by simp
  then have "Im S = 0"
    by simp
  then show ?thesis
    unfolding S_def .
qed

lemma ring_term_outward:
  assumes "0 < k" and "k < len"
  shows "0 < Re (ring_term len rho k)"
proof -
  have "Re (ring_term len rho k)
          = coef (\<bar>rho\<bar> * cmod (unit_root len k - 1)) * (1 - Re (unit_root len k))"
    by (simp add: ring_term_def)
  then show ?thesis
    using root_left_of_one [OF assms] coef_pos by simp
qed

lemma radial_push_pos:
  assumes "2 \<le> len" and "0 < rho"
  shows "0 < radial_push len rho"
proof -
  have "0 < (\<Sum>k \<in> {1..<len}. Re (ring_term len rho k))"
  proof (rule sum_pos)
    show "finite {1..<len}" by simp
    show "{1..<len} \<noteq> {}" using assms(1) by simp
    show "0 < Re (ring_term len rho k)" if "k \<in> {1..<len}" for k
      using that by (intro ring_term_outward) simp_all
  qed
  then show ?thesis
    using assms(2) by (simp add: radial_push_def)
qed

lemma sum_list_upto_except:
  fixes f :: "nat \<Rightarrow> complex"
  shows "(\<Sum>j \<leftarrow> filter (\<lambda>j. j \<noteq> i) [0..<len]. f j) = (\<Sum>j \<in> {0..<len} - {i}. f j)"
proof -
  have "distinct (filter (\<lambda>j. j \<noteq> i) [0..<len])"
    by simp
  then have "(\<Sum>j \<leftarrow> filter (\<lambda>j. j \<noteq> i) [0..<len]. f j)
               = sum f (set (filter (\<lambda>j. j \<noteq> i) [0..<len]))"
    by (rule sum_list_distinct_conv_sum_set)
  also have "set (filter (\<lambda>j. j \<noteq> i) [0..<len]) = {0..<len} - {i}"
    by auto
  finally show ?thesis .
qed

lemma repulsion_at_ring:
  assumes "distinct ks" and "i < length ks"
  shows "repulsion_at (ring ks rho nu) (ks ! i) (ring_particle (length ks) rho nu i)
           = of_real (radial_push (length ks) rho) * unit_root (length ks) i"
proof -
  let ?N = "length ks"
  let ?P = "ring_particle ?N rho nu"
  let ?S = "\<Sum>k \<in> {1..<?N}. ring_term ?N rho k"
  have "(\<Sum>q \<leftarrow> others (ring ks rho nu) (ks ! i). repel_vec (?P i) q)
          = (\<Sum>j \<leftarrow> filter (\<lambda>j. j \<noteq> i) [0..<?N]. repel_vec (?P i) (?P j))"
    by (simp only: others_ring [OF assms] map_map comp_def)
  also have "\<dots> = (\<Sum>j \<in> {0..<?N} - {i}. repel_vec (?P i) (?P j))"
    by (rule sum_list_upto_except)
  also have "\<dots> = (\<Sum>j \<in> {0..<?N} - {i}.
                      - (of_real rho * unit_root ?N i * ring_term ?N rho ((j + ?N - i) mod ?N)))"
    using assms(2) by (intro sum.cong refl repel_ring) simp_all
  also have "\<dots> = - (of_real rho * unit_root ?N i
                        * (\<Sum>j \<in> {0..<?N} - {i}. ring_term ?N rho ((j + ?N - i) mod ?N)))"
    by (simp only: sum_negf sum_distrib_left)
  also have "(\<Sum>j \<in> {0..<?N} - {i}. ring_term ?N rho ((j + ?N - i) mod ?N)) = ?S"
    by (rule sum_shift [OF assms(2)])
  finally have "repulsion_at (ring ks rho nu) (ks ! i) (?P i) = of_real rho * unit_root ?N i * ?S"
    by (simp add: repulsion_at_def)
  moreover have "?S = of_real (Re ?S)"
    using ring_sum_real [of ?N rho] by (simp add: complex_eq_iff)
  ultimately have "repulsion_at (ring ks rho nu) (ks ! i) (?P i)
                     = of_real rho * unit_root ?N i * of_real (Re ?S)"
    by simp
  then show ?thesis
    by (simp add: radial_push_def)
qed

subsection \<open>A ring stays a ring and grows\<close>

lemma move_pushed_ring:
  "move (pushed (of_real a * unit_root len i) (ring_particle len rho nu i))
     = ring_particle len (rho + (nu + a)) ((nu + a) * DAMPING) i"
  by (simp add: move_def pushed_def ring_particle_def unit_root_def algebra_simps)

lemma iteration_ring:
  assumes "distinct ks"
  shows "iteration [] (ring ks rho nu)
           = ring ks (rho + (nu + radial_push (length ks) rho))
               ((nu + radial_push (length ks) rho) * DAMPING)"
proof -
  let ?N = "length ks"
  let ?pos = "ring ks rho nu"
  have d: "distinct (map fst ?pos)"
    using assms by simp
  have "iteration [] ?pos
          = map (\<lambda>(k, p). (k, move (pushed (repulsion_at ?pos k p + attraction_at ?pos [] k) p))) ?pos"
    by (rule iteration_net [OF d])
  also have "\<dots> = map (\<lambda>i. (ks ! i,
                 move (pushed (repulsion_at ?pos (ks ! i) (ring_particle ?N rho nu i))
                         (ring_particle ?N rho nu i)))) [0..<?N]"
    by (simp add: ring_def comp_def attraction_at_def)
  also have "\<dots> = map (\<lambda>i. (ks ! i,
                 ring_particle ?N (rho + (nu + radial_push ?N rho))
                   ((nu + radial_push ?N rho) * DAMPING) i)) [0..<?N]"
    by (intro map_cong refl) (simp add: repulsion_at_ring [OF assms] move_pushed_ring)
  finally show ?thesis
    by (simp add: ring_def)
qed

lemma iterations_ring:
  assumes "distinct ks"
  shows "(iteration [] ^^ n) (ring ks rho 0)
           = ring ks (fst (ring_state (length ks) rho n)) (snd (ring_state (length ks) rho n))"
proof (induction n)
  case 0
  show ?case by simp
next
  case (Suc n)
  obtain r v where rv: "ring_state (length ks) rho n = (r, v)"
    by (cases "ring_state (length ks) rho n")
  with Suc show ?case
    by (simp add: iteration_ring [OF assms] Let_def)
qed

lemma ring_state_grows:
  assumes "2 \<le> len" and "0 < rho"
  shows "rho \<le> fst (ring_state len rho n) \<and> 0 \<le> snd (ring_state len rho n)
           \<and> (0 < n \<longrightarrow> rho < fst (ring_state len rho n))"
proof (induction n)
  case 0
  show ?case by simp
next
  case (Suc n)
  obtain r v where rv: "ring_state len rho n = (r, v)"
    by (cases "ring_state len rho n")
  with Suc have r: "rho \<le> r" and v: "0 \<le> v"
    by simp_all
  from r assms(2) have "0 < r"
    by simp
  then have "0 < radial_push len r"
    by (rule radial_push_pos [OF assms(1)])
  with r v show ?case
    by (simp add: rv Let_def DAMPING_def)
qed

lemma seed_radius_pos: "0 < seed_radius len"
proof -
  have "(1::real) \<le> max 1 (real_of_int \<lceil>sqrt (real len)\<rceil> / 2)"
    by simp
  then show ?thesis
    unfolding seed_radius_def GAP_def by linarith
qed

lemma map_of_ring:
  assumes "distinct ks" and "i < length ks"
  shows "map_of (ring ks rho nu) (ks ! i) = Some (ring_particle (length ks) rho nu i)"
proof -
  have "(ks ! i, ring_particle (length ks) rho nu i) \<in> set (ring ks rho nu)"
    using assms(2) by (auto simp: ring_def)
  moreover have "distinct (map fst (ring ks rho nu))"
    using assms(1) by simp
  ultimately show ?thesis
    by simp
qed

lemma distance_translated:
  "distance \<lparr>px = px p + tx, py = py p + ty\<rparr> \<lparr>px = px q + tx, py = py q + ty\<rparr> = distance p q"
  by (simp add: distance_def)

lemma ring_chord_pos:
  assumes "i < len" and "j < len" and "i \<noteq> j"
  shows "0 < cmod (unit_root len ((j + len - i) mod len) - 1)"
proof -
  have "unit_root len j - unit_root len i \<noteq> 0"
    using roots_differ [OF assms] by simp
  then have "unit_root len ((j + len - i) mod len) - 1 \<noteq> 0"
    by (simp add: unit_root_factor [OF assms(1, 2)])
  then show ?thesis
    by simp
qed

subsection \<open>The layout of nodes without edges, in exact arithmetic\<close>

text \<open>
  Over the real numbers, nodes with pairwise distinct composite keys and no edges stay on
  a regular ring that grows in every iteration, so any two of them end further apart than
  they were seeded. This rests on the exact symmetry of the ring, which rounding does not
  keep: it is a property of the real-number model, not of the program in double
  precision.
\<close>

lemma unconnected_nodes_spread:
  assumes "distinct (map node_key nodes)" and "2 \<le> length nodes"
    and "i < length nodes" and "j < length nodes" and "i \<noteq> j"
  shows "\<exists>p0 q0 p q.
           map_of (seed nodes) (node_key (nodes ! i)) = Some p0
         \<and> map_of (seed nodes) (node_key (nodes ! j)) = Some q0
         \<and> map_of (useForceLayout nodes []) (node_key (nodes ! i)) = Some p
         \<and> map_of (useForceLayout nodes []) (node_key (nodes ! j)) = Some q
         \<and> distance p0 q0 < distance p q
         \<and> (px p, py p) \<noteq> (px q, py q)"
proof -
  let ?ks = "map node_key nodes"
  let ?N = "length nodes"
  let ?r0 = "seed_radius ?N"
  define R where "R = fst (ring_state ?N ?r0 ITERATIONS)"
  define V where "V = snd (ring_state ?N ?r0 ITERATIONS)"
  let ?sim = "ring ?ks R V"
  define tx where "tx = PAD - Min (xs_of ?sim)"
  define ty where "ty = PAD - Min (ys_of ?sim)"
  define chord where "chord = cmod (unit_root ?N ((j + ?N - i) mod ?N) - 1)"
  have len: "length ?ks = ?N" and ki: "?ks ! i = node_key (nodes ! i)"
    and kj: "?ks ! j = node_key (nodes ! j)"
    using assms(3, 4) by simp_all
  have seed: "seed nodes = ring ?ks ?r0 0"
    by (rule seed_ring [OF assms(1)])
  have "simulate [] (seed nodes) = ?sim"
    unfolding simulate_def seed R_def V_def
    using iterations_ring [OF assms(1), of ITERATIONS ?r0] by (simp only: len)
  moreover have "?sim \<noteq> []"
    using assms(2) by (auto simp: ring_def)
  ultimately have layout: "useForceLayout nodes [] = translate tx ty ?sim"
    using assms(2) normalise_translate [of ?sim]
    by (auto simp: useForceLayout_def tx_def ty_def assms(1))
  have grow: "?r0 < R"
    using ring_state_grows [OF assms(2) seed_radius_pos [of ?N], where n = ITERATIONS]
    by (simp add: R_def ITERATIONS_def)
  have chord: "0 < chord"
    unfolding chord_def by (rule ring_chord_pos [OF assms(3, 4, 5)])
  let ?seedi = "ring_particle ?N ?r0 0 i" and ?seedj = "ring_particle ?N ?r0 0 j"
  let ?P = "ring_particle ?N R V i" and ?Q = "ring_particle ?N R V j"
  let ?p = "\<lparr>px = px ?P + tx, py = py ?P + ty\<rparr>" and ?q = "\<lparr>px = px ?Q + tx, py = py ?Q + ty\<rparr>"
  have s1: "map_of (seed nodes) (node_key (nodes ! i)) = Some ?seedi"
    using map_of_ring [OF assms(1), of i ?r0 0] assms(3) by (simp add: seed)
  have s2: "map_of (seed nodes) (node_key (nodes ! j)) = Some ?seedj"
    using map_of_ring [OF assms(1), of j ?r0 0] assms(4) by (simp add: seed)
  have l1: "map_of (useForceLayout nodes []) (node_key (nodes ! i)) = Some ?p"
    using map_of_ring [OF assms(1), of i R V] assms(3) by (simp add: layout map_of_translate)
  have l2: "map_of (useForceLayout nodes []) (node_key (nodes ! j)) = Some ?q"
    using map_of_ring [OF assms(1), of j R V] assms(4) by (simp add: layout map_of_translate)
  have d0: "distance ?seedi ?seedj = ?r0 * chord"
    using distance_ring [OF assms(3, 4), of ?r0 0] seed_radius_pos [of ?N]
    by (simp add: chord_def)
  have "0 < R"
    using grow seed_radius_pos [of ?N] by linarith
  then have d1: "distance ?p ?q = R * chord"
    using distance_ring [OF assms(3, 4), of R V]
    by (simp only: distance_translated) (simp add: chord_def)
  have further: "distance ?seedi ?seedj < distance ?p ?q"
    using grow chord by (simp add: d0 d1)
  have "distance ?p ?q \<noteq> 0"
    using further distance_nonneg [of ?seedi ?seedj] by linarith
  then have apart: "(px ?p, py ?p) \<noteq> (px ?q, py ?q)"
    by (auto simp: distance_def)
  from s1 s2 l1 l2 further apart show ?thesis
    by blast
qed

text \<open>
  Two entries of the node list with the same composite key share one object of the
  position object, so they end at the same coordinates.
\<close>

lemma ceiling_sqrt_2: "\<lceil>sqrt 2\<rceil> = 2"
proof (rule ceiling_unique)
  have "1 < sqrt 2"
    by (rule real_less_rsqrt) simp
  then show "real_of_int 2 - 1 < sqrt 2"
    by simp
  have "sqrt 2 \<le> 2"
    by (rule real_le_lsqrt) simp_all
  then show "sqrt 2 \<le> real_of_int 2"
    by simp
qed

lemma seed_shared_key:
  assumes "node_key m = node_key n"
  shows "seed [m, n] = [(node_key n, \<lparr>px = 180, py = 300, vx = 0, vy = 0\<rparr>)]"
proof -
  have "[0..<2] = [0, Suc 0]"
    by (simp add: upt_rec)
  then have "seed [m, n] = [(node_key n, seed_particle 2 1)]"
    using assms by (simp add: seed_def numeral_2_eq_2)
  moreover have "seed_particle 2 1 = \<lparr>px = 180, py = 300, vx = 0, vy = 0\<rparr>"
    by (simp add: seed_particle_def ceiling_sqrt_2 GAP_def)
  ultimately show ?thesis
    by simp
qed

lemma useForceLayout_shared_key:
  assumes "node_key m = node_key n"
  shows "useForceLayout [m, n] [] = [(node_key n, \<lparr>px = 40, py = 40\<rparr>)]"
  by (simp add: useForceLayout_def simulate_def seed_shared_key [OF assms]
      iterations_single_at_rest normalise_def PAD_def)

lemma repeated_table_shares_position:
  "useForceLayout
     [\<lparr>node_id = ''orders'', node_label = ''orders'', node_row_count = 10, node_service = ''shop''\<rparr>,
      \<lparr>node_id = ''orders'', node_label = ''orders'', node_row_count = 10, node_service = ''shop''\<rparr>] []
     = [(''shop:orders'', \<lparr>px = 40, py = 40\<rparr>)]"
proof -
  let ?o = "\<lparr>node_id = ''orders'', node_label = ''orders'', node_row_count = 10, node_service = ''shop''\<rparr>"
  have ko: "node_key ?o = ''shop:orders''"
    by (simp add: node_key_def composite_key_def)
  show ?thesis
    using useForceLayout_shared_key [of ?o ?o] by (simp only: ko)
qed

section \<open>Port selection\<close>

text \<open>
  C8. With \<open>dx\<close> and \<open>dy\<close> the displacement between the centres of the two cards: when
  \<open>|dx| > |dy|\<close> the connector leaves the source at the midpoint of its right side and
  enters the target at the midpoint of its left side if \<open>dx > 0\<close>, and leaves at the left
  and enters at the right if \<open>dx < 0\<close>; otherwise it leaves at the midpoint of the bottom
  side and enters at the top if \<open>dy > 0\<close>, and leaves at the top and enters at the bottom
  if not.
\<close>

theorem edgePorts_dominant_axis:
  fixes sp tp :: point
  defines "dx \<equiv> centre_x tp - centre_x sp" and "dy \<equiv> centre_y tp - centre_y sp"
  shows "(\<bar>dx\<bar> > \<bar>dy\<bar> \<and> dx > 0 \<longrightarrow>
            exit_port (edgePorts sp tp) = right_mid sp \<and> entry_port (edgePorts sp tp) = left_mid tp)
       \<and> (\<bar>dx\<bar> > \<bar>dy\<bar> \<and> dx < 0 \<longrightarrow>
            exit_port (edgePorts sp tp) = left_mid sp \<and> entry_port (edgePorts sp tp) = right_mid tp)
       \<and> (\<not> \<bar>dx\<bar> > \<bar>dy\<bar> \<and> dy > 0 \<longrightarrow>
            exit_port (edgePorts sp tp) = bottom_mid sp \<and> entry_port (edgePorts sp tp) = top_mid tp)
       \<and> (\<not> \<bar>dx\<bar> > \<bar>dy\<bar> \<and> \<not> dy > 0 \<longrightarrow>
            exit_port (edgePorts sp tp) = top_mid sp \<and> entry_port (edgePorts sp tp) = bottom_mid tp)"
  unfolding dx_def dy_def
  by (auto simp add: edgePorts_def Let_def centre_x_def centre_y_def exit_port_def entry_port_def
      left_mid_def right_mid_def top_mid_def bottom_mid_def)

theorem edgePorts_dominant_axis_witness:
  "exit_port (edgePorts \<lparr>px = 0, py = 0\<rparr> \<lparr>px = 300, py = 100\<rparr>) = (160, 30)
   \<and> entry_port (edgePorts \<lparr>px = 0, py = 0\<rparr> \<lparr>px = 300, py = 100\<rparr>) = (300, 130)
   \<and> exit_port (edgePorts \<lparr>px = 300, py = 100\<rparr> \<lparr>px = 0, py = 0\<rparr>) = (300, 130)
   \<and> entry_port (edgePorts \<lparr>px = 300, py = 100\<rparr> \<lparr>px = 0, py = 0\<rparr>) = (160, 30)
   \<and> exit_port (edgePorts \<lparr>px = 0, py = 0\<rparr> \<lparr>px = 100, py = 300\<rparr>) = (80, 60)
   \<and> entry_port (edgePorts \<lparr>px = 0, py = 0\<rparr> \<lparr>px = 100, py = 300\<rparr>) = (180, 300)
   \<and> exit_port (edgePorts \<lparr>px = 100, py = 300\<rparr> \<lparr>px = 0, py = 0\<rparr>) = (180, 300)
   \<and> entry_port (edgePorts \<lparr>px = 100, py = 300\<rparr> \<lparr>px = 0, py = 0\<rparr>) = (80, 60)"
  using edgePorts_dominant_axis [of "\<lparr>px = 0, py = 0\<rparr>" "\<lparr>px = 300, py = 100\<rparr>"]
    edgePorts_dominant_axis [of "\<lparr>px = 300, py = 100\<rparr>" "\<lparr>px = 0, py = 0\<rparr>"]
    edgePorts_dominant_axis [of "\<lparr>px = 0, py = 0\<rparr>" "\<lparr>px = 100, py = 300\<rparr>"]
    edgePorts_dominant_axis [of "\<lparr>px = 100, py = 300\<rparr>" "\<lparr>px = 0, py = 0\<rparr>"]
  by (simp add: centre_x_def centre_y_def CARD_W_def CARD_H_def
      left_mid_def right_mid_def top_mid_def bottom_mid_def)

section \<open>Connected nodes\<close>

subsection \<open>Objects in the complex plane\<close>

lemma distance_node_at: "distance (node_at z v) (node_at z' v') = cmod (z' - z)"
  by (simp add: distance_def node_at_def cmod_def power2_eq_square)

lemma repel_vec_node_at: "repel_vec (node_at z v) (node_at z' v') = repel_between z z'"
proof -
  have "Complex (px (node_at z' v') - px (node_at z v)) (py (node_at z' v') - py (node_at z v)) = z' - z"
    by (simp add: node_at_def complex_eq_iff)
  then show ?thesis
    by (simp only: repel_vec_coef distance_node_at repel_between_def)
qed

lemma spring_vec_node_at:
  assumes "z \<noteq> z'"
  shows "spring_vec (node_at z v) (node_at z' v') = spring_between z z'"
proof -
  let ?d = "cmod (z' - z)"
  have d: "0 < ?d"
    using assms by simp
  then have apart: "0 < distance (node_at z v) (node_at z' v')"
    by (simp only: distance_node_at)
  have "direction (node_at z v) (node_at z' v') = of_real (1 / ?d) * (z' - z)"
    by (simp add: direction_def distance_node_at) (simp add: node_at_def complex_eq_iff)
  then have "spring_vec (node_at z v) (node_at z' v')
               = of_real ((?d - GAP * (16 / 10)) * ATTRACT) * (of_real (1 / ?d) * (z' - z))"
    by (simp only: spring_vec_apart [OF apart] hookean_def distance_node_at)
  then show ?thesis
    by (simp add: spring_between_def)
qed

lemma move_pushed_node_at:
  "move (pushed f (node_at z v)) = node_at (z + (v + f)) ((v + f) * of_real DAMPING)"
  by (simp add: move_def pushed_def node_at_def)

lemma scaled_flip: "of_real c * (z - z') = - (of_real c * (z' - z))" for z z' :: complex
  by (simp add: algebra_simps)

lemma repel_between_flip: "repel_between z' z = - repel_between z z'"
  unfolding repel_between_def norm_minus_commute [of z z'] by (rule scaled_flip)

lemma spring_between_flip: "spring_between z' z = - spring_between z z'"
  unfolding spring_between_def norm_minus_commute [of z z'] by (rule scaled_flip)

text \<open>What the edge list of one edge between two keys adds at every key.\<close>

lemma attraction_at_joined:
  assumes "map_of pos ka = Some (node_at za va)" and "map_of pos kb = Some (node_at zb vb)"
    and "ka \<noteq> kb" and "za \<noteq> zb"
    and "(source_key e = ka \<and> target_key e = kb) \<or> (source_key e = kb \<and> target_key e = ka)"
  shows "attraction_at pos [e] k
           = (if k = ka then spring_between za zb else if k = kb then - spring_between za zb else 0)"
proof -
  have ab: "spring_vec (node_at za va) (node_at zb vb) = spring_between za zb"
    by (rule spring_vec_node_at [OF assms(4)])
  have ba: "spring_vec (node_at zb vb) (node_at za va) = - spring_between za zb"
    using spring_vec_node_at [of zb za vb va] assms(4) by (simp add: spring_between_flip [of za zb])
  from assms(5) show ?thesis
  proof
    assume "source_key e = ka \<and> target_key e = kb"
    then show ?thesis
      using assms(1, 2, 3) by (simp add: attraction_at_def edge_pull_def spring_delta_def ab)
  next
    assume "source_key e = kb \<and> target_key e = ka"
    then show ?thesis
      using assms(1, 2, 3) by (simp add: attraction_at_def edge_pull_def spring_delta_def ba)
  qed
qed

lemma iteration_two:
  assumes "ka \<noteq> kb" and "za \<noteq> zb"
    and "(source_key e = ka \<and> target_key e = kb) \<or> (source_key e = kb \<and> target_key e = ka)"
  defines "f \<equiv> spring_between za zb - repel_between za zb"
  shows "iteration [e] [(ka, node_at za va), (kb, node_at zb vb)]
           = [(ka, node_at (za + (va + f)) ((va + f) * of_real DAMPING)),
              (kb, node_at (zb + (vb - f)) ((vb - f) * of_real DAMPING))]"
proof -
  let ?pos = "[(ka, node_at za va), (kb, node_at zb vb)]"
  have d: "distinct (map fst ?pos)"
    using assms(1) by simp
  have pull: "attraction_at ?pos [e] k
           = (if k = ka then spring_between za zb else if k = kb then - spring_between za zb else 0)" for k
    using assms(1) by (intro attraction_at_joined [OF _ _ assms(1, 2, 3)]) simp_all
  have ra: "repulsion_at ?pos ka (node_at za va) = - repel_between za zb"
    using assms(1) by (simp add: repulsion_at_def others_def repel_vec_node_at)
  have rb: "repulsion_at ?pos kb (node_at zb vb) = repel_between za zb"
    using assms(1) by (simp add: repulsion_at_def others_def repel_vec_node_at repel_between_flip [of za zb])
  show ?thesis
    using assms(1) unfolding iteration_net [OF d]
    by (simp add: pull ra rb move_pushed_node_at f_def algebra_simps)
qed

lemma iteration_three:
  fixes za zb zc :: complex
  assumes "distinct [ka, kb, kc]" and "za \<noteq> zb"
    and "source_key e = ka" and "target_key e = kb"
  defines "fa \<equiv> spring_between za zb - repel_between za zb - repel_between za zc"
    and "fb \<equiv> repel_between za zb - spring_between za zb - repel_between zb zc"
    and "fc \<equiv> repel_between za zc + repel_between zb zc"
  shows "iteration [e] [(ka, node_at za va), (kb, node_at zb vb), (kc, node_at zc vc)]
           = [(ka, node_at (za + (va + fa)) ((va + fa) * of_real DAMPING)),
              (kb, node_at (zb + (vb + fb)) ((vb + fb) * of_real DAMPING)),
              (kc, node_at (zc + (vc + fc)) ((vc + fc) * of_real DAMPING))]"
proof -
  let ?pos = "[(ka, node_at za va), (kb, node_at zb vb), (kc, node_at zc vc)]"
  have k: "ka \<noteq> kb" "ka \<noteq> kc" "kb \<noteq> kc"
    using assms(1) by simp_all
  have d: "distinct (map fst ?pos)"
    using assms(1) by simp
  have pull: "attraction_at ?pos [e] k
           = (if k = ka then spring_between za zb else if k = kb then - spring_between za zb else 0)" for k
    using k assms(3, 4) by (intro attraction_at_joined [OF _ _ k(1) assms(2)]) simp_all
  have ra: "repulsion_at ?pos ka (node_at za va) = - repel_between za zb - repel_between za zc"
    using k by (simp add: repulsion_at_def others_def repel_vec_node_at)
  have rb: "repulsion_at ?pos kb (node_at zb vb) = repel_between za zb - repel_between zb zc"
    using k by (simp add: repulsion_at_def others_def repel_vec_node_at repel_between_flip [of za zb])
  have rc: "repulsion_at ?pos kc (node_at zc vc) = repel_between za zc + repel_between zb zc"
    using k by (simp add: repulsion_at_def others_def repel_vec_node_at
        repel_between_flip [of za zc] repel_between_flip [of zb zc])
  show ?thesis
    using k unfolding iteration_net [OF d]
    by (simp add: pull ra rb rc move_pushed_node_at fa_def fb_def fc_def algebra_simps)
qed

subsection \<open>Two nodes and an edge between them\<close>

lemma iteration_pair:
  assumes "ka \<noteq> kb" and "0 < h"
    and "(source_key e = ka \<and> target_key e = kb) \<or> (source_key e = kb \<and> target_key e = ka)"
  shows "iteration [e] (pair_layout ka kb (h, nu)) = pair_layout ka kb (pair_step (h, nu))"
proof -
  let ?za = "centre + of_real h" and ?zb = "centre - of_real h"
  define w where "w = nu + 2 * h * coef (2 * h) - (2 * h - GAP * (16 / 10)) * ATTRACT"
  have diff: "?zb - ?za = of_real (- (2 * h))"
    by simp
  have len: "cmod (?zb - ?za) = 2 * h"
    using assms(2) by (simp only: diff norm_of_real)
  have apart: "?za \<noteq> ?zb"
    using assms(2) by simp
  have R: "repel_between ?za ?zb = of_real (- (2 * h * coef (2 * h)))"
    unfolding repel_between_def len unfolding diff by (simp add: algebra_simps)
  have S: "spring_between ?za ?zb = of_real (- ((2 * h - GAP * (16 / 10)) * ATTRACT))"
    unfolding spring_between_def len unfolding diff using assms(2) by simp
  have f: "of_real nu + (spring_between ?za ?zb - repel_between ?za ?zb) = of_real w"
    unfolding R S w_def by simp
  have g: "- of_real nu - (spring_between ?za ?zb - repel_between ?za ?zb) = - of_real w"
    unfolding R S w_def by simp
  have "iteration [e] (pair_layout ka kb (h, nu))
          = [(ka, node_at (?za + of_real w) (of_real w * of_real DAMPING)),
             (kb, node_at (?zb + - of_real w) (- of_real w * of_real DAMPING))]"
    unfolding pair_layout_def prod.case iteration_two [OF assms(1) apart assms(3)] f g ..
  also have "\<dots> = pair_layout ka kb (h + w, w * DAMPING)"
    by (simp add: pair_layout_def algebra_simps)
  also have "(h + w, w * DAMPING) = pair_step (h, nu)"
    by (simp add: pair_step_def Let_def w_def)
  finally show ?thesis .
qed

subsection \<open>Three nodes and an edge between the first two\<close>

lemma cmod_axis: "cmod axis = 1"
proof -
  have "(1 / 2)\<^sup>2 + (sqrt 3 / 2)\<^sup>2 = (1::real)"
    by (simp add: power_divide)
  then show ?thesis
    by (simp only: axis_def cmod_def complex.sel real_sqrt_one)
qed

lemma cmod_along_axis: "cmod (axis * Complex x y) = sqrt (x\<^sup>2 + y\<^sup>2)"
proof -
  have "cmod (axis * Complex x y) = cmod axis * cmod (Complex x y)"
    by (rule norm_mult)
  also have "\<dots> = cmod (Complex x y)"
    by (simp only: cmod_axis mult_1)
  also have "\<dots> = sqrt (x\<^sup>2 + y\<^sup>2)"
    by (simp only: cmod_def complex.sel)
  finally show ?thesis .
qed

lemma scaled_along_axis: "of_real c * (axis * Complex x y) = axis * Complex (c * x) (c * y)"
  by (simp add: complex_eq_iff algebra_simps)

lemma iteration_tri:
  assumes "distinct [ka, kb, kc]" and "0 < h"
    and "source_key e = ka" and "target_key e = kb"
  shows "iteration [e] (tri_layout ka kb kc (m, h, mu, nu)) = tri_layout ka kb kc (tri_step (m, h, mu, nu))"
proof -
  let ?za = "centre + axis * Complex m (- h)" and ?zb = "centre + axis * Complex m h"
    and ?zc = "centre - axis * of_real (2 * m)"
  let ?va = "axis * Complex mu (- nu)" and ?vb = "axis * Complex mu nu"
    and ?vc = "- (axis * of_real (2 * mu))"
  define s where "s = sqrt (9 * m\<^sup>2 + h\<^sup>2)"
  define a where "a = 3 * m * coef s"
  define b where "b = 2 * h * coef (2 * h) + h * coef s - (2 * h - GAP * (16 / 10)) * ATTRACT"
  have ab: "?zb - ?za = axis * Complex 0 (2 * h)"
    and ac: "?zc - ?za = axis * Complex (- (3 * m)) h"
    and bc: "?zc - ?zb = axis * Complex (- (3 * m)) (- h)"
    by (simp_all add: complex_eq_iff algebra_simps)
  have lab: "cmod (?zb - ?za) = 2 * h"
    using assms(2) by (simp only: ab cmod_along_axis) (simp add: real_sqrt_mult)
  have lac: "cmod (?zc - ?za) = s"
    by (simp only: ac cmod_along_axis) (simp add: s_def power2_eq_square)
  have lbc: "cmod (?zc - ?zb) = s"
    by (simp only: bc cmod_along_axis) (simp add: s_def power2_eq_square)
  have apart: "?za \<noteq> ?zb"
  proof
    assume "?za = ?zb"
    then have "cmod (?zb - ?za) = 0"
      by simp
    with lab assms(2) show False
      by simp
  qed
  have Rab: "repel_between ?za ?zb = axis * Complex 0 (2 * h * coef (2 * h))"
    unfolding repel_between_def lab unfolding ab scaled_along_axis by (simp add: mult.commute mult.left_commute)
  have Rac: "repel_between ?za ?zc = axis * Complex (- (3 * m * coef s)) (h * coef s)"
    unfolding repel_between_def lac unfolding ac scaled_along_axis by (simp add: mult.commute mult.left_commute)
  have Rbc: "repel_between ?zb ?zc = axis * Complex (- (3 * m * coef s)) (- (h * coef s))"
    unfolding repel_between_def lbc unfolding bc scaled_along_axis by (simp add: mult.commute mult.left_commute)
  have S: "spring_between ?za ?zb = axis * Complex 0 ((2 * h - GAP * (16 / 10)) * ATTRACT)"
    unfolding spring_between_def lab unfolding ab scaled_along_axis using assms(2) by simp
  have fa: "?va + (spring_between ?za ?zb - repel_between ?za ?zb - repel_between ?za ?zc)
              = axis * Complex (mu + a) (- (nu + b))"
    unfolding Rab Rac S a_def b_def by (simp add: complex_eq_iff algebra_simps)
  have fb: "?vb + (repel_between ?za ?zb - spring_between ?za ?zb - repel_between ?zb ?zc)
              = axis * Complex (mu + a) (nu + b)"
    unfolding Rab Rbc S a_def b_def by (simp add: complex_eq_iff algebra_simps)
  have fc: "?vc + (repel_between ?za ?zc + repel_between ?zb ?zc) = - (axis * of_real (2 * (mu + a)))"
    unfolding Rac Rbc a_def by (simp add: complex_eq_iff algebra_simps)
  have "iteration [e] (tri_layout ka kb kc (m, h, mu, nu))
          = [(ka, node_at (?za + axis * Complex (mu + a) (- (nu + b)))
                  (axis * Complex (mu + a) (- (nu + b)) * of_real DAMPING)),
             (kb, node_at (?zb + axis * Complex (mu + a) (nu + b))
                  (axis * Complex (mu + a) (nu + b) * of_real DAMPING)),
             (kc, node_at (?zc + - (axis * of_real (2 * (mu + a))))
                  (- (axis * of_real (2 * (mu + a))) * of_real DAMPING))]"
    unfolding tri_layout_def prod.case iteration_three [OF assms(1) apart assms(3, 4)] fa fb fc ..
  also have "\<dots> = tri_layout ka kb kc (m + (mu + a), h + (nu + b), (mu + a) * DAMPING, (nu + b) * DAMPING)"
    unfolding tri_layout_def prod.case
    by (intro arg_cong2 [where f = Cons] arg_cong2 [where f = Pair] arg_cong2 [where f = node_at] refl)
       (simp_all add: complex_eq_iff algebra_simps)
  also have "(m + (mu + a), h + (nu + b), (mu + a) * DAMPING, (nu + b) * DAMPING) = tri_step (m, h, mu, nu)"
    by (simp add: tri_step_def Let_def a_def b_def s_def)
  finally show ?thesis .
qed

subsection \<open>The reduced recurrences\<close>

lemma lyap_nonneg: "0 \<le> lyap e nu"
  by (simp add: lyap_def)

lemma lyap_free:
  "lyap (e + (nu - 8 / 100 * e)) (82 / 100 * (nu - 8 / 100 * e)) = 82 / 100 * lyap e nu"
  unfolding lyap_def power2_eq_square by algebra

lemma lyap_add:
  "lyap (e1 + e2) (n1 + n2) \<le> 11 / 10 * lyap e1 n1 + 11 * lyap e2 n2"
proof -
  have "11 / 10 * lyap e1 n1 + 11 * lyap e2 n2 - lyap (e1 + e2) (n1 + n2)
          = 1 / 10 * lyap (e1 - 10 * e2) (n1 - 10 * n2)"
    by (simp add: lyap_def power2_eq_square algebra_simps)
  moreover have "0 \<le> 1 / 10 * lyap (e1 - 10 * e2) (n1 - 10 * n2)"
    using lyap_nonneg [of "e1 - 10 * e2" "n1 - 10 * n2"] by simp
  ultimately show ?thesis
    by linarith
qed

lemma lyap_forcing: "lyap u (82 / 100 * u) = 336200 * u\<^sup>2"
  by (simp add: lyap_def power2_eq_square algebra_simps)

lemma lyap_forced:
  "lyap (e + (nu - 8 / 100 * e + u)) (82 / 100 * (nu - 8 / 100 * e + u))
     \<le> 902 / 1000 * lyap e nu + 3698200 * u\<^sup>2"
proof -
  have "lyap (e + (nu - 8 / 100 * e + u)) (82 / 100 * (nu - 8 / 100 * e + u))
          = lyap ((e + (nu - 8 / 100 * e)) + u) (82 / 100 * (nu - 8 / 100 * e) + 82 / 100 * u)"
    by (rule arg_cong2 [where f = lyap]) (simp_all add: field_simps)
  also have "\<dots> \<le> 11 / 10 * lyap (e + (nu - 8 / 100 * e)) (82 / 100 * (nu - 8 / 100 * e))
                    + 11 * lyap u (82 / 100 * u)"
    by (rule lyap_add)
  also have "\<dots> = 902 / 1000 * lyap e nu + 3698200 * u\<^sup>2"
    unfolding lyap_free lyap_forcing by simp
  finally show ?thesis .
qed

lemma lyap_position: "25871 * e\<^sup>2 \<le> lyap e nu"
proof -
  have "lyap e nu - 25871 * e\<^sup>2 = 410000 * (nu + e / 20)\<^sup>2"
    by (simp add: lyap_def power2_eq_square algebra_simps)
  moreover have "0 \<le> 410000 * (nu + e / 20)\<^sup>2"
    by simp
  ultimately show ?thesis
    by linarith
qed

lemma lyap_rest: "lyap e 0 = 26896 * e\<^sup>2"
  by (simp add: lyap_def power2_eq_square)

lemma coef_far:
  assumes "1 \<le> d"
  shows "coef d = 18000 / d ^ 3"
proof -
  have "1 \<le> d\<^sup>2"
    using assms by (simp add: one_le_power)
  then have "max (d\<^sup>2) 1 = d\<^sup>2"
    by simp
  moreover have "sqrt (d\<^sup>2) = d"
    using assms by simp
  ultimately show ?thesis
    by (simp add: coef_def REPEL_def power3_eq_cube power2_eq_square)
qed

lemma abs_le_from_square:
  fixes e c :: real
  assumes "e\<^sup>2 \<le> c\<^sup>2" and "0 \<le> c"
  shows "\<bar>e\<bar> \<le> c"
  using assms by (simp add: abs_le_square_iff [symmetric])

lemma pair_region:
  assumes "lyap (h - 176) nu \<le> 52070656"
  shows "131 \<le> h"
proof -
  have "25871 * (h - 176)\<^sup>2 \<le> 52070656"
    using lyap_position [of "h - 176" nu] assms by linarith
  then have "(h - 176)\<^sup>2 \<le> 45\<^sup>2"
    by simp
  then have "\<bar>h - 176\<bar> \<le> 45"
    by (rule abs_le_from_square) simp
  then show ?thesis
    by linarith
qed

lemma pair_push:
  assumes "131 \<le> h"
  shows "2 * h * coef (2 * h) = 4500 / h\<^sup>2" and "0 \<le> 4500 / h\<^sup>2" and "4500 / h\<^sup>2 \<le> 2623 / 10000"
proof -
  have "coef (2 * h) = 18000 / (2 * h) ^ 3"
    using assms by (intro coef_far) linarith
  then show "2 * h * coef (2 * h) = 4500 / h\<^sup>2"
    using assms by (simp add: power3_eq_cube power2_eq_square)
  show "0 \<le> 4500 / h\<^sup>2"
    by simp
  have "131\<^sup>2 \<le> h\<^sup>2"
    using assms by (intro power_mono) simp_all
  then have "4500 / h\<^sup>2 \<le> 4500 / 131\<^sup>2"
    by (intro frac_le) simp_all
  then show "4500 / h\<^sup>2 \<le> 2623 / 10000"
    by simp
qed

lemma pair_step_lyap:
  assumes "lyap (h - 176) nu \<le> 52070656"
  shows "lyap (fst (pair_step (h, nu)) - 176) (snd (pair_step (h, nu)))
           \<le> 902 / 1000 * lyap (h - 176) nu + 255000"
proof -
  define u where "u = 4500 / h\<^sup>2"
  define e where "e = h - 176"
  have h: "131 \<le> h"
    by (rule pair_region [OF assms])
  have u: "2 * h * coef (2 * h) = u" "0 \<le> u" "u \<le> 2623 / 10000"
    unfolding u_def by (rule pair_push [OF h])+
  have "u\<^sup>2 \<le> (2623 / 10000)\<^sup>2"
    using u(2, 3) by (intro power_mono)
  then have small: "3698200 * u\<^sup>2 \<le> 255000"
    by (simp add: power2_eq_square)
  have w: "nu + 2 * h * coef (2 * h) - (2 * h - GAP * (16 / 10)) * ATTRACT = nu - 8 / 100 * e + u"
    by (simp add: u(1) e_def GAP_def ATTRACT_def)
  have ps: "pair_step (h, nu)
              = (h + (nu + 2 * h * coef (2 * h) - (2 * h - GAP * (16 / 10)) * ATTRACT),
                 (nu + 2 * h * coef (2 * h) - (2 * h - GAP * (16 / 10)) * ATTRACT) * DAMPING)"
    by (simp add: pair_step_def Let_def)
  have "fst (pair_step (h, nu)) - 176 = e + (nu - 8 / 100 * e + u)"
    and "snd (pair_step (h, nu)) = 82 / 100 * (nu - 8 / 100 * e + u)"
    unfolding ps w DAMPING_def by (simp_all add: e_def)
  then have "lyap (fst (pair_step (h, nu)) - 176) (snd (pair_step (h, nu)))
               \<le> 902 / 1000 * lyap e nu + 3698200 * u\<^sup>2"
    by (simp only: lyap_forced)
  with small show ?thesis
    by (simp add: e_def)
qed

lemma pair_decay:
  "lyap (fst (pair_state n) - 176) (snd (pair_state n)) \<le> 52070656
   \<and> lyap (fst (pair_state n) - 176) (snd (pair_state n)) \<le> (902 / 1000) ^ n * 52070656 + 2610000"
proof (induction n)
  case 0
  show ?case
    by (simp add: GAP_def lyap_rest)
next
  case (Suc n)
  define h where "h = fst (pair_state n)"
  define nu where "nu = snd (pair_state n)"
  have st: "pair_state (Suc n) = pair_step (h, nu)"
    by (simp add: h_def nu_def)
  from Suc.IH have inside: "lyap (h - 176) nu \<le> 52070656"
    and decay: "lyap (h - 176) nu \<le> (902 / 1000) ^ n * 52070656 + 2610000"
    by (simp_all add: h_def nu_def)
  have step: "lyap (fst (pair_step (h, nu)) - 176) (snd (pair_step (h, nu)))
           \<le> 902 / 1000 * lyap (h - 176) nu + 255000"
    by (rule pair_step_lyap [OF inside])
  have a: "lyap (fst (pair_step (h, nu)) - 176) (snd (pair_step (h, nu))) \<le> 52070656"
    using step inside by linarith
  have "902 / 1000 * lyap (h - 176) nu \<le> 902 / 1000 * ((902 / 1000) ^ n * 52070656 + 2610000)"
    using decay by simp
  then have b: "lyap (fst (pair_step (h, nu)) - 176) (snd (pair_step (h, nu)))
           \<le> (902 / 1000) ^ Suc n * 52070656 + 2610000"
    using step by (simp add: algebra_simps)
  from a b show ?case
    by (simp only: st) 
qed

lemma damping_200: "(902 / 1000 :: real) ^ 200 \<le> 1 / 100"
proof -
  have "(902 / 1000 :: real) ^ 200 \<le> (902 / 1000) ^ 50"
    by (rule power_decreasing) simp_all
  also have "\<dots> = ((902 / 1000) ^ 5) ^ 10"
    by (simp only: power_mult [symmetric]) simp
  also have "\<dots> \<le> (3 / 5) ^ 10"
    by (rule power_mono) (simp_all add: power_divide)
  also have "\<dots> \<le> 1 / 100"
    by (simp add: power_divide)
  finally show ?thesis .
qed

lemma pair_settled: "\<bar>2 * fst (pair_state 200) - 352\<bar> \<le> 352 / 10"
proof -
  define h where "h = fst (pair_state 200)"
  define nu where "nu = snd (pair_state 200)"
  have "lyap (h - 176) nu \<le> (902 / 1000) ^ 200 * 52070656 + 2610000"
    using pair_decay [of 200] by (simp add: h_def nu_def)
  moreover have "(902 / 1000 :: real) ^ 200 * 52070656 \<le> 1 / 100 * 52070656"
    using damping_200 by (intro mult_right_mono) simp_all
  ultimately have "lyap (h - 176) nu \<le> 3130707"
    by simp
  then have "25871 * (h - 176)\<^sup>2 \<le> 3130707"
    using lyap_position [of "h - 176" nu] by linarith
  then have "(h - 176)\<^sup>2 \<le> (176 / 10)\<^sup>2"
    by (simp add: power2_eq_square)
  then have "\<bar>h - 176\<bar> \<le> 176 / 10"
    by (rule abs_le_from_square) simp
  then show ?thesis
    unfolding h_def [symmetric] by linarith
qed

lemma tri_region:
  assumes "lyap (h - 176) nu \<le> 5700000"
  shows "161 \<le> h" and "h \<le> 191"
proof -
  have "25871 * (h - 176)\<^sup>2 \<le> 5700000"
    using lyap_position [of "h - 176" nu] assms by linarith
  then have "(h - 176)\<^sup>2 \<le> 15\<^sup>2"
    by simp
  then have "\<bar>h - 176\<bar> \<le> 15"
    by (rule abs_le_from_square) simp
  then show "161 \<le> h" and "h \<le> 191"
    by linarith+
qed

lemma tri_far:
  assumes "110 \<le> m" and "161 \<le> h" and "h \<le> 191"
  defines "s \<equiv> sqrt (9 * m\<^sup>2 + h\<^sup>2)"
  shows "3 * m \<le> s" and "coef s = 18000 / s ^ 3" and "s\<^sup>2 = 9 * m\<^sup>2 + h\<^sup>2"
proof -
  have "sqrt ((3 * m)\<^sup>2) \<le> sqrt (9 * m\<^sup>2 + h\<^sup>2)"
    by (rule real_sqrt_le_mono) (simp add: power2_eq_square)
  moreover have "sqrt ((3 * m)\<^sup>2) = 3 * m"
    using assms(1) by (simp only: real_sqrt_abs)
  ultimately show far: "3 * m \<le> s"
    unfolding s_def by linarith
  then have "1 \<le> s"
    using assms(1) by linarith
  then show "coef s = 18000 / s ^ 3"
    by (rule coef_far)
  show "s\<^sup>2 = 9 * m\<^sup>2 + h\<^sup>2"
    unfolding s_def by (rule real_sqrt_pow2) (simp add: add_nonneg_nonneg)
qed

lemma tri_side_push:
  assumes "110 \<le> m" and "161 \<le> h" and "h \<le> 191"
  shows "0 \<le> h * coef (sqrt (9 * m\<^sup>2 + h\<^sup>2))"
    and "h * coef (sqrt (9 * m\<^sup>2 + h\<^sup>2)) \<le> 96 / 1000"
proof -
  define s where "s = sqrt (9 * m\<^sup>2 + h\<^sup>2)"
  have s: "3 * m \<le> s" "coef s = 18000 / s ^ 3"
    unfolding s_def by (rule tri_far [OF assms])+
  have s330: "330 \<le> s"
    using s(1) assms(1) by linarith
  then have cube: "(330::real) ^ 3 \<le> s ^ 3"
    by (intro power_mono) simp_all
  have "h * coef s = 18000 * h / s ^ 3"
    by (simp add: s(2))
  also have "\<dots> \<le> 18000 * 191 / 330 ^ 3"
    using assms(2, 3) cube by (intro frac_le) simp_all
  also have "\<dots> \<le> 96 / 1000"
    by simp
  finally show "h * coef (sqrt (9 * m\<^sup>2 + h\<^sup>2)) \<le> 96 / 1000"
    by (simp add: s_def)
  have "0 \<le> h * (18000 / s ^ 3)"
    using assms(2) s330 by simp
  then show "0 \<le> h * coef (sqrt (9 * m\<^sup>2 + h\<^sup>2))"
    unfolding s_def [symmetric] s(2) .
qed

lemma tri_out_push:
  assumes "110 \<le> m" and "161 \<le> h" and "h \<le> 191"
  shows "0 \<le> 3 * m * coef (sqrt (9 * m\<^sup>2 + h\<^sup>2))"
    and "3 * m * coef (sqrt (9 * m\<^sup>2 + h\<^sup>2)) \<le> 1 / 6"
    and "m \<le> 140 \<Longrightarrow> 3 / 50 \<le> 3 * m * coef (sqrt (9 * m\<^sup>2 + h\<^sup>2))"
proof -
  define s where "s = sqrt (9 * m\<^sup>2 + h\<^sup>2)"
  have s: "3 * m \<le> s" "coef s = 18000 / s ^ 3" "s\<^sup>2 = 9 * m\<^sup>2 + h\<^sup>2"
    unfolding s_def by (rule tri_far [OF assms])+
  have s330: "330 \<le> s"
    using s(1) assms(1) by linarith
  have f: "3 * m * coef s = 54000 * m / s ^ 3"
    by (simp add: s(2))
  have "0 \<le> 54000 * m / s ^ 3"
    using assms(1) s330 by simp
  then show "0 \<le> 3 * m * coef (sqrt (9 * m\<^sup>2 + h\<^sup>2))"
    by (simp only: f s_def [symmetric])
  have "(3 * m) ^ 3 \<le> s ^ 3"
    using s(1) assms(1) by (intro power_mono) simp_all
  then have "54000 * m / s ^ 3 \<le> 54000 * m / (3 * m) ^ 3"
    using assms(1) by (intro frac_le) simp_all
  also have "\<dots> = 2000 / m\<^sup>2"
    using assms(1) by (simp add: power3_eq_cube power2_eq_square)
  also have "\<dots> \<le> 2000 / 110\<^sup>2"
    using assms(1) by (intro frac_le power_mono) simp_all
  also have "\<dots> \<le> 1 / 6"
    by simp
  finally show "3 * m * coef (sqrt (9 * m\<^sup>2 + h\<^sup>2)) \<le> 1 / 6"
    by (simp only: f s_def [symmetric])
  show "3 / 50 \<le> 3 * m * coef (sqrt (9 * m\<^sup>2 + h\<^sup>2))" if "m \<le> 140"
  proof -
    have "m\<^sup>2 \<le> 140\<^sup>2" and "h\<^sup>2 \<le> 191\<^sup>2"
      using assms that by (intro power_mono; simp)+
    then have "s\<^sup>2 \<le> 462\<^sup>2"
      by (simp add: s(3))
    then have "\<bar>s\<bar> \<le> 462"
      by (rule abs_le_from_square) simp
    then have "s ^ 3 \<le> 462 ^ 3"
      using s330 by (intro power_mono) simp_all
    then have "54000 * 110 / 462 ^ 3 \<le> 54000 * m / s ^ 3"
      using assms(1) s330 by (intro frac_le) simp_all
    moreover have "(3 / 50 :: real) \<le> 54000 * 110 / 462 ^ 3"
      by simp
    ultimately show ?thesis
      by (simp only: f s_def [symmetric])
  qed
qed

lemma tri_step_lyap:
  assumes "lyap (h - 176) nu \<le> 5700000" and "110 \<le> m"
  shows "lyap (fst (snd (tri_step (m, h, mu, nu))) - 176) (snd (snd (snd (tri_step (m, h, mu, nu)))))
           \<le> 5700000"
proof -
  define s where "s = sqrt (9 * m\<^sup>2 + h\<^sup>2)"
  define u where "u = 4500 / h\<^sup>2 + h * coef s"
  define e where "e = h - 176"
  have h: "161 \<le> h" "h \<le> 191"
    by (rule tri_region [OF assms(1)])+
  have side: "0 \<le> h * coef s" "h * coef s \<le> 96 / 1000"
    unfolding s_def by (rule tri_side_push [OF assms(2) h])+
  have "coef (2 * h) = 18000 / (2 * h) ^ 3"
    using h(1) by (intro coef_far) linarith
  then have near: "2 * h * coef (2 * h) = 4500 / h\<^sup>2"
    using h(1) by (simp add: power3_eq_cube power2_eq_square)
  have "161\<^sup>2 \<le> h\<^sup>2"
    using h(1) by (intro power_mono) simp_all
  then have "4500 / h\<^sup>2 \<le> 4500 / 161\<^sup>2"
    by (intro frac_le) simp_all
  then have "4500 / h\<^sup>2 \<le> 174 / 1000"
    by simp
  moreover have "0 \<le> 4500 / h\<^sup>2"
    by simp
  ultimately have u: "0 \<le> u" "u \<le> 27 / 100"
    using side by (simp_all add: u_def)
  have "u\<^sup>2 \<le> (27 / 100)\<^sup>2"
    using u by (intro power_mono)
  then have small: "3698200 * u\<^sup>2 \<le> 270000"
    by (simp add: power2_eq_square)
  have w: "nu + 2 * h * coef (2 * h) + h * coef s - (2 * h - GAP * (16 / 10)) * ATTRACT
             = nu - 8 / 100 * e + u"
    by (simp add: near u_def e_def GAP_def ATTRACT_def)
  have ts: "fst (snd (tri_step (m, h, mu, nu)))
              = h + (nu + 2 * h * coef (2 * h) + h * coef s - (2 * h - GAP * (16 / 10)) * ATTRACT)"
    "snd (snd (snd (tri_step (m, h, mu, nu))))
              = (nu + 2 * h * coef (2 * h) + h * coef s - (2 * h - GAP * (16 / 10)) * ATTRACT) * DAMPING"
    by (simp_all add: tri_step_def Let_def s_def)
  have "fst (snd (tri_step (m, h, mu, nu))) - 176 = e + (nu - 8 / 100 * e + u)"
    and "snd (snd (snd (tri_step (m, h, mu, nu)))) = 82 / 100 * (nu - 8 / 100 * e + u)"
    unfolding ts w DAMPING_def by (simp_all add: e_def)
  then have "lyap (fst (snd (tri_step (m, h, mu, nu))) - 176) (snd (snd (snd (tri_step (m, h, mu, nu)))))
               \<le> 902 / 1000 * lyap e nu + 3698200 * u\<^sup>2"
    by (simp only: lyap_forced)
  with small assms(1) show ?thesis
    by (simp add: e_def)
qed

lemma tri_step_out:
  assumes "lyap (h - 176) nu \<le> 5700000" and "110 \<le> m" and "0 \<le> mu" and "mu \<le> 76 / 100"
    and "min 140 (110 + real n / 3) \<le> m + 50 / 9 * mu"
  defines "m' \<equiv> fst (tri_step (m, h, mu, nu))"
    and "mu' \<equiv> fst (snd (snd (tri_step (m, h, mu, nu))))"
  shows "110 \<le> m'" and "0 \<le> mu'" and "mu' \<le> 76 / 100"
    and "min 140 (110 + real (Suc n) / 3) \<le> m' + 50 / 9 * mu'"
proof -
  define f where "f = 3 * m * coef (sqrt (9 * m\<^sup>2 + h\<^sup>2))"
  have h: "161 \<le> h" "h \<le> 191"
    by (rule tri_region [OF assms(1)])+
  have f: "0 \<le> f" "f \<le> 1 / 6" "m \<le> 140 \<Longrightarrow> 3 / 50 \<le> f"
    unfolding f_def by (rule tri_out_push [OF assms(2) h])+
  have m': "m' = m + (mu + f)" and mu': "mu' = (mu + f) * (82 / 100)"
    by (simp_all add: m'_def mu'_def tri_step_def Let_def f_def DAMPING_def)
  show "110 \<le> m'" and "0 \<le> mu'" and "mu' \<le> 76 / 100"
    using assms(2, 3, 4) f(1, 2) by (simp_all add: m' mu')
  have z: "m' + 50 / 9 * mu' = m + 50 / 9 * mu + 50 / 9 * f"
    by (simp add: m' mu' field_simps)
  show "min 140 (110 + real (Suc n) / 3) \<le> m' + 50 / 9 * mu'"
  proof (cases "m \<le> 140")
    case True
    then have "3 / 50 \<le> f"
      by (rule f(3))
    then have "1 / 3 \<le> 50 / 9 * f"
      by simp
    moreover have "min 140 (110 + real (Suc n) / 3) \<le> min 140 (110 + real n / 3) + 1 / 3"
      by (simp add: min_def add_divide_distrib)
    ultimately show ?thesis
      using assms(5) unfolding z by linarith
  next
    case False
    moreover have "0 \<le> 50 / 9 * mu" and "0 \<le> 50 / 9 * f"
      using assms(3) f(1) by simp_all
    moreover have "min 140 (110 + real (Suc n) / 3) \<le> 140"
      by simp
    ultimately show ?thesis
      unfolding z by linarith
  qed
qed

lemma tri_inside_step:
  assumes "tri_inside n st"
  shows "tri_inside (Suc n) (tri_step st)"
proof -
  obtain m h mu nu where st: "st = (m, h, mu, nu)"
    by (cases st) auto
  obtain m' h' mu' nu' where st': "tri_step (m, h, mu, nu) = (m', h', mu', nu')"
    by (cases "tri_step (m, h, mu, nu)") auto
  from assms have a: "lyap (h - 176) nu \<le> 5700000" "110 \<le> m" "0 \<le> mu" "mu \<le> 76 / 100"
    "min 140 (110 + real n / 3) \<le> m + 50 / 9 * mu"
    by (simp_all add: tri_inside_def st)
  have "lyap (h' - 176) nu' \<le> 5700000"
    using tri_step_lyap [OF a(1, 2), of mu] by (simp add: st')
  moreover have "110 \<le> m'" and "0 \<le> mu'" and "mu' \<le> 76 / 100"
    and "min 140 (110 + real (Suc n) / 3) \<le> m' + 50 / 9 * mu'"
    using tri_step_out [OF a] by (simp_all add: st')
  ultimately show ?thesis
    by (simp add: tri_inside_def st st')
qed

lemma sqrt_3_lower: "16 / 10 \<le> sqrt 3"
  by (rule real_le_rsqrt) (simp add: power2_eq_square)

lemma sqrt_3_upper: "sqrt 3 \<le> 17322 / 10000"
  by (rule real_le_lsqrt) (simp_all add: power2_eq_square)

lemma tri_inside_seed: "tri_inside 0 (tri_state 0)"
proof -
  have "110 * (16 / 10) \<le> 110 * sqrt 3"
    by (rule mult_left_mono [OF sqrt_3_lower]) simp
  moreover have "110 * sqrt 3 \<le> 110 * (17322 / 10000)"
    by (rule mult_left_mono [OF sqrt_3_upper]) simp
  ultimately
  have "0 \<le> 110 * sqrt 3 - 176" and "110 * sqrt 3 - 176 \<le> 1455 / 100"
    by simp_all
  then have "(110 * sqrt 3 - 176)\<^sup>2 \<le> (1455 / 100)\<^sup>2"
    by (intro power_mono)
  then have "26896 * (110 * sqrt 3 - 176)\<^sup>2 \<le> 5700000"
    by (simp add: power2_eq_square)
  then show ?thesis
    by (simp add: tri_inside_def GAP_def lyap_rest)
qed

lemma tri_inside_state: "tri_inside n (tri_state n)"
proof (induction n)
  case 0
  show ?case by (rule tri_inside_seed)
next
  case (Suc n)
  then show ?case
    by (simp only: tri_state.simps tri_inside_step)
qed

lemma tri_settled:
  assumes "tri_state 200 = (m, h, mu, nu)"
  shows "\<bar>2 * h - 352\<bar> \<le> 352 / 10" and "352 + 352 / 10 < sqrt (9 * m\<^sup>2 + h\<^sup>2)"
proof -
  have "tri_inside 200 (m, h, mu, nu)"
    using tri_inside_state [of 200] by (simp only: assms)
  then have a: "lyap (h - 176) nu \<le> 5700000" "110 \<le> m" "0 \<le> mu" "mu \<le> 76 / 100"
    "min 140 (110 + real 200 / 3) \<le> m + 50 / 9 * mu"
    by (simp_all add: tri_inside_def)
  have h: "161 \<le> h" "h \<le> 191"
    by (rule tri_region [OF a(1)])+
  then show "\<bar>2 * h - 352\<bar> \<le> 352 / 10"
    by linarith
  have "135 \<le> m"
    using a(4, 5) by simp
  moreover have "3 * m \<le> sqrt (9 * m\<^sup>2 + h\<^sup>2)"
    by (rule tri_far [OF a(2) h])
  ultimately show "352 + 352 / 10 < sqrt (9 * m\<^sup>2 + h\<^sup>2)"
    by linarith
qed

subsection \<open>From the seed to the layout\<close>

lemma pair_state_far: "131 \<le> fst (pair_state n)"
proof -
  have "lyap (fst (pair_state n) - 176) (snd (pair_state n)) \<le> 52070656"
    using pair_decay [of n] by simp
  then show ?thesis
    by (rule pair_region)
qed

lemma iterations_pair:
  assumes "ka \<noteq> kb"
    and "(source_key e = ka \<and> target_key e = kb) \<or> (source_key e = kb \<and> target_key e = ka)"
  shows "(iteration [e] ^^ n) (pair_layout ka kb (pair_state 0)) = pair_layout ka kb (pair_state n)"
proof (induction n)
  case 0
  show ?case by simp
next
  case (Suc n)
  obtain h nu where st: "pair_state n = (h, nu)"
    by (cases "pair_state n") auto
  have "0 < h"
    using pair_state_far [of n] by (simp add: st)
  then have "iteration [e] (pair_layout ka kb (h, nu)) = pair_layout ka kb (pair_step (h, nu))"
    by (rule iteration_pair [OF assms(1) _ assms(2)])
  then show ?case
    by (simp add: Suc.IH st del: pair_state.simps(1))
qed

lemma seed_pair:
  assumes "node_key a \<noteq> node_key b"
  shows "seed [a, b] = pair_layout (node_key a) (node_key b) (pair_state 0)"
proof -
  have "seed_radius 2 = 220"
    by (simp add: seed_radius_def ceiling_sqrt_2 GAP_def)
  then have r: "seed_radius (Suc (Suc 0)) = 220"
    by (simp only: numeral_2_eq_2)
  have two: "[0..<2] = [0, Suc 0]"
    by (simp add: upt_rec)
  have "seed [a, b] = ring [node_key a, node_key b] 220 0"
    using seed_ring [of "[a, b]"] assms by (simp add: r)
  also have "\<dots> = [(node_key a, ring_particle 2 220 0 0), (node_key b, ring_particle 2 220 0 1)]"
    by (simp add: ring_def two numeral_2_eq_2 [symmetric])
  also have "ring_particle 2 220 0 0 = node_at (centre + of_real 220) (of_real 0)"
    by (simp add: ring_particle_def seed_angle_def node_at_def centre_def)
  also have "ring_particle 2 220 0 1 = node_at (centre - of_real 220) (- of_real 0)"
    by (simp add: ring_particle_def seed_angle_def node_at_def centre_def)
  finally show ?thesis
    by (simp add: pair_layout_def GAP_def)
qed

lemma tri_state_far:
  assumes "tri_state n = (m, h, mu, nu)"
  shows "161 \<le> h"
proof -
  have "tri_inside n (m, h, mu, nu)"
    using tri_inside_state [of n] by (simp only: assms)
  then have "lyap (h - 176) nu \<le> 5700000"
    by (simp add: tri_inside_def)
  then show ?thesis
    by (rule tri_region)
qed

lemma iterations_tri:
  assumes "distinct [ka, kb, kc]" and "source_key e = ka" and "target_key e = kb"
  shows "(iteration [e] ^^ n) (tri_layout ka kb kc (tri_state 0)) = tri_layout ka kb kc (tri_state n)"
proof (induction n)
  case 0
  show ?case by simp
next
  case (Suc n)
  obtain m h mu nu where st: "tri_state n = (m, h, mu, nu)"
    by (cases "tri_state n") auto
  have "0 < h"
    using tri_state_far [OF st] by simp
  then have "iteration [e] (tri_layout ka kb kc (m, h, mu, nu))
               = tri_layout ka kb kc (tri_step (m, h, mu, nu))"
    by (rule iteration_tri [OF assms(1) _ assms(2, 3)])
  then show ?case
    by (simp add: Suc.IH st del: tri_state.simps(1))
qed

lemma ceiling_sqrt_3: "\<lceil>sqrt 3\<rceil> = 2"
proof (rule ceiling_unique)
  have "1 < sqrt 3"
    by (rule real_less_rsqrt) simp
  then show "real_of_int 2 - 1 < sqrt 3"
    by simp
  have "sqrt 3 \<le> 2"
    by (rule real_le_lsqrt) simp_all
  then show "sqrt 3 \<le> real_of_int 2"
    by simp
qed

lemma angle_240: "4 * pi / 3 = pi / 3 + pi"
  by simp

lemma cos_240: "cos (4 * pi / 3) = - 1 / 2"
  by (simp only: angle_240 cos_periodic_pi cos_60)

lemma sin_240: "sin (4 * pi / 3) = - (sqrt 3 / 2)"
  by (simp only: angle_240 sin_periodic_pi sin_60)

lemma seed_tri:
  assumes "distinct [node_key a, node_key b, node_key c]"
  shows "seed [a, b, c] = tri_layout (node_key a) (node_key b) (node_key c) (tri_state 0)"
proof -
  have "seed_radius 3 = 220"
    by (simp add: seed_radius_def ceiling_sqrt_3 GAP_def)
  then have r: "seed_radius (Suc (Suc (Suc 0))) = 220"
    by (simp only: numeral_3_eq_3)
  have three: "[0..<3] = [0, Suc 0, Suc (Suc 0)]"
    by (simp add: upt_rec)
  have "seed [a, b, c] = ring [node_key a, node_key b, node_key c] 220 0"
    using seed_ring [of "[a, b, c]"] assms by (simp add: r)
  also have "\<dots> = [(node_key a, ring_particle 3 220 0 0), (node_key b, ring_particle 3 220 0 1),
                      (node_key c, ring_particle 3 220 0 2)]"
    by (simp add: ring_def three numeral_3_eq_3 [symmetric] numeral_2_eq_2 [symmetric])
  also have "ring_particle 3 220 0 0 = node_at (centre + axis * Complex 110 (- (110 * sqrt 3))) (axis * Complex 0 (- 0))"
    by (simp add: ring_particle_def seed_angle_def node_at_def centre_def axis_def)
  also have "ring_particle 3 220 0 1 = node_at (centre + axis * Complex 110 (110 * sqrt 3)) (axis * Complex 0 0)"
    by (simp add: ring_particle_def seed_angle_def node_at_def centre_def axis_def cos_120 sin_120)
  also have "ring_particle 3 220 0 2 = node_at (centre - axis * of_real (2 * 110)) (- (axis * of_real (2 * 0)))"
    by (simp add: ring_particle_def seed_angle_def node_at_def centre_def axis_def cos_240 sin_240)
  finally show ?thesis
    by (simp add: tri_layout_def GAP_def)
qed

text \<open>The distance of two keys in the normalised object is their distance before.\<close>

lemma normalise_distance:
  assumes "distinct (map fst pos)"
    and "map_of pos ka = Some (node_at za va)" and "map_of pos kb = Some (node_at zb vb)"
  shows "\<exists>p q. map_of (normalise pos) ka = Some p \<and> map_of (normalise pos) kb = Some q
               \<and> distance p q = cmod (zb - za)"
proof -
  let ?tx = "PAD - Min (xs_of pos)" and ?ty = "PAD - Min (ys_of pos)"
  let ?p = "\<lparr>px = px (node_at za va) + ?tx, py = py (node_at za va) + ?ty\<rparr>"
  let ?q = "\<lparr>px = px (node_at zb vb) + ?tx, py = py (node_at zb vb) + ?ty\<rparr>"
  have "pos \<noteq> []"
    using assms(2) by auto
  then have n: "normalise pos = translate ?tx ?ty pos"
    by (rule normalise_translate [OF assms(1)])
  have "map_of (normalise pos) ka = Some ?p" and "map_of (normalise pos) kb = Some ?q"
    by (simp_all add: n map_of_translate assms(2, 3))
  moreover have "distance ?p ?q = cmod (zb - za)"
    by (simp only: distance_translated distance_node_at)
  ultimately show ?thesis
    by blast
qed

lemma useForceLayout_pair:
  assumes "node_key a \<noteq> node_key b"
    and "(source_key e = node_key a \<and> target_key e = node_key b)
         \<or> (source_key e = node_key b \<and> target_key e = node_key a)"
  shows "\<exists>p q. map_of (useForceLayout [a, b] [e]) (node_key a) = Some p
             \<and> map_of (useForceLayout [a, b] [e]) (node_key b) = Some q
             \<and> \<bar>distance p q - GAP * (16 / 10)\<bar> \<le> GAP * (16 / 10) / 10"
proof -
  obtain h nu where st: "pair_state 200 = (h, nu)"
    by (cases "pair_state 200") auto
  let ?za = "centre + of_real h" and ?zb = "centre - of_real h"
  let ?pos = "[(node_key a, node_at ?za (of_real nu)), (node_key b, node_at ?zb (- of_real nu))]"
  have h: "0 < h"
    using pair_state_far [of 200] by (simp add: st)
  have "simulate [e] (seed [a, b]) = pair_layout (node_key a) (node_key b) (pair_state 200)"
    unfolding simulate_def ITERATIONS_def seed_pair [OF assms(1)] by (rule iterations_pair [OF assms])
  then have "useForceLayout [a, b] [e] = normalise ?pos"
    by (simp add: useForceLayout_def st pair_layout_def)
  moreover have "\<exists>p q. map_of (normalise ?pos) (node_key a) = Some p
                    \<and> map_of (normalise ?pos) (node_key b) = Some q
                    \<and> distance p q = cmod (?zb - ?za)"
    using assms(1) by (intro normalise_distance) simp_all
  moreover have "?zb - ?za = of_real (- (2 * h))"
    by simp
  then have "cmod (?zb - ?za) = 2 * h"
    using h by (simp only: norm_of_real)
  moreover have "\<bar>2 * h - GAP * (16 / 10)\<bar> \<le> GAP * (16 / 10) / 10"
    using pair_settled by (simp add: st GAP_def)
  ultimately show ?thesis
    by auto
qed

lemma useForceLayout_tri:
  assumes "distinct [node_key a, node_key b, node_key c]"
    and "source_key e = node_key a" and "target_key e = node_key b"
  shows "\<exists>p q r. map_of (useForceLayout [a, b, c] [e]) (node_key a) = Some p
             \<and> map_of (useForceLayout [a, b, c] [e]) (node_key b) = Some q
             \<and> map_of (useForceLayout [a, b, c] [e]) (node_key c) = Some r
             \<and> \<bar>distance p q - GAP * (16 / 10)\<bar> \<le> GAP * (16 / 10) / 10
             \<and> GAP * (16 / 10) + GAP * (16 / 10) / 10 < distance p r
             \<and> GAP * (16 / 10) + GAP * (16 / 10) / 10 < distance q r"
proof -
  obtain m h mu nu where st: "tri_state 200 = (m, h, mu, nu)"
    by (cases "tri_state 200") auto
  let ?za = "centre + axis * Complex m (- h)" and ?zb = "centre + axis * Complex m h"
    and ?zc = "centre - axis * of_real (2 * m)"
  let ?A = "node_at ?za (axis * Complex mu (- nu))" and ?B = "node_at ?zb (axis * Complex mu nu)"
    and ?C = "node_at ?zc (- (axis * of_real (2 * mu)))"
  let ?pos = "[(node_key a, ?A), (node_key b, ?B), (node_key c, ?C)]"
  let ?tx = "PAD - Min (xs_of ?pos)" and ?ty = "PAD - Min (ys_of ?pos)"
  let ?p = "\<lparr>px = px ?A + ?tx, py = py ?A + ?ty\<rparr>"
  let ?q = "\<lparr>px = px ?B + ?tx, py = py ?B + ?ty\<rparr>"
  let ?r = "\<lparr>px = px ?C + ?tx, py = py ?C + ?ty\<rparr>"
  have k: "node_key a \<noteq> node_key b" "node_key a \<noteq> node_key c" "node_key b \<noteq> node_key c"
    using assms(1) by simp_all
  have h: "0 < h"
    using tri_state_far [OF st] by simp
  have "simulate [e] (seed [a, b, c]) = tri_layout (node_key a) (node_key b) (node_key c) (tri_state 200)"
    unfolding simulate_def ITERATIONS_def seed_tri [OF assms(1)] by (rule iterations_tri [OF assms])
  then have "useForceLayout [a, b, c] [e] = normalise ?pos"
    by (simp add: useForceLayout_def st tri_layout_def)
  also have "\<dots> = translate ?tx ?ty ?pos"
    using k by (intro normalise_translate) simp_all
  finally have layout: "useForceLayout [a, b, c] [e] = translate ?tx ?ty ?pos" .
  have pa: "map_of (useForceLayout [a, b, c] [e]) (node_key a) = Some ?p"
    and pb: "map_of (useForceLayout [a, b, c] [e]) (node_key b) = Some ?q"
    and pc: "map_of (useForceLayout [a, b, c] [e]) (node_key c) = Some ?r"
    using k by (simp_all add: layout map_of_translate)
  have ab: "?zb - ?za = axis * Complex 0 (2 * h)"
    and ac: "?zc - ?za = axis * Complex (- (3 * m)) h"
    and bc: "?zc - ?zb = axis * Complex (- (3 * m)) (- h)"
    by (simp_all add: complex_eq_iff algebra_simps)
  have dab: "distance ?p ?q = 2 * h"
    using h by (simp only: distance_translated distance_node_at ab cmod_along_axis)
      (simp add: real_sqrt_mult)
  have dac: "distance ?p ?r = sqrt (9 * m\<^sup>2 + h\<^sup>2)"
    by (simp only: distance_translated distance_node_at ac cmod_along_axis)
      (simp add: power2_eq_square)
  have dbc: "distance ?q ?r = sqrt (9 * m\<^sup>2 + h\<^sup>2)"
    by (simp only: distance_translated distance_node_at bc cmod_along_axis)
      (simp add: power2_eq_square)
  have near: "\<bar>distance ?p ?q - GAP * (16 / 10)\<bar> \<le> GAP * (16 / 10) / 10"
    unfolding dab using tri_settled(1) [OF st] by (simp add: GAP_def)
  have far: "GAP * (16 / 10) + GAP * (16 / 10) / 10 < sqrt (9 * m\<^sup>2 + h\<^sup>2)"
    using tri_settled(2) [OF st] by (simp add: GAP_def)
  have far_a: "GAP * (16 / 10) + GAP * (16 / 10) / 10 < distance ?p ?r"
    unfolding dac by (rule far)
  have far_b: "GAP * (16 / 10) + GAP * (16 / 10) / 10 < distance ?q ?r"
    unfolding dbc by (rule far)
  from pa pb pc near far_a far_b show ?thesis
    by blast
qed

text \<open>
  C2. For two nodes with different keys and one edge between them, in either direction,
  the two positions of the result are at a distance within 10 percent of
  \<open>GAP * 1.6 = 352\<close>. For three nodes \<open>[a, b, c]\<close> with different keys and the one edge
  from \<open>a\<close> to \<open>b\<close>, the distance of \<open>a\<close> and \<open>b\<close> is within 10 percent of \<open>352\<close>, and the
  distances of \<open>a\<close> and \<open>c\<close> and of \<open>b\<close> and \<open>c\<close> are both greater than \<open>352\<close> plus 10 percent.
\<close>

theorem connected_nodes_at_spring_length:
  "(node_key a \<noteq> node_key b
      \<and> ((source_key e = node_key a \<and> target_key e = node_key b)
           \<or> (source_key e = node_key b \<and> target_key e = node_key a))
    \<longrightarrow> (\<exists>p q. map_of (useForceLayout [a, b] [e]) (node_key a) = Some p
             \<and> map_of (useForceLayout [a, b] [e]) (node_key b) = Some q
             \<and> \<bar>distance p q - GAP * (16 / 10)\<bar> \<le> GAP * (16 / 10) / 10))
   \<and> (distinct [node_key a, node_key b, node_key c]
      \<and> source_key e = node_key a \<and> target_key e = node_key b
    \<longrightarrow> (\<exists>p q r. map_of (useForceLayout [a, b, c] [e]) (node_key a) = Some p
             \<and> map_of (useForceLayout [a, b, c] [e]) (node_key b) = Some q
             \<and> map_of (useForceLayout [a, b, c] [e]) (node_key c) = Some r
             \<and> \<bar>distance p q - GAP * (16 / 10)\<bar> \<le> GAP * (16 / 10) / 10
             \<and> GAP * (16 / 10) + GAP * (16 / 10) / 10 < distance p r
             \<and> GAP * (16 / 10) + GAP * (16 / 10) / 10 < distance q r))"
  using useForceLayout_pair [of a b e] useForceLayout_tri [of a b c e] by blast

theorem connected_nodes_at_spring_length_witness:
  "(\<exists>p q.
      map_of (useForceLayout
        [\<lparr>node_id = ''orders'', node_label = ''orders'', node_row_count = 10, node_service = ''shop''\<rparr>,
         \<lparr>node_id = ''customers'', node_label = ''customers'', node_row_count = 4, node_service = ''shop''\<rparr>]
        [\<lparr>edge_source = ''orders'', edge_target = ''customers'', edge_source_column = ''customer_id'',
          edge_target_column = ''id'', edge_service = ''shop'', edge_inferred = False\<rparr>]) ''shop:orders'' = Some p
    \<and> map_of (useForceLayout
        [\<lparr>node_id = ''orders'', node_label = ''orders'', node_row_count = 10, node_service = ''shop''\<rparr>,
         \<lparr>node_id = ''customers'', node_label = ''customers'', node_row_count = 4, node_service = ''shop''\<rparr>]
        [\<lparr>edge_source = ''orders'', edge_target = ''customers'', edge_source_column = ''customer_id'',
          edge_target_column = ''id'', edge_service = ''shop'', edge_inferred = False\<rparr>]) ''shop:customers'' = Some q
    \<and> \<bar>distance p q - 352\<bar> \<le> 352 / 10)
   \<and> (\<exists>p q r.
      map_of (useForceLayout
        [\<lparr>node_id = ''orders'', node_label = ''orders'', node_row_count = 10, node_service = ''shop''\<rparr>,
         \<lparr>node_id = ''customers'', node_label = ''customers'', node_row_count = 4, node_service = ''shop''\<rparr>,
         \<lparr>node_id = ''products'', node_label = ''products'', node_row_count = 7, node_service = ''shop''\<rparr>]
        [\<lparr>edge_source = ''orders'', edge_target = ''customers'', edge_source_column = ''customer_id'',
          edge_target_column = ''id'', edge_service = ''shop'', edge_inferred = False\<rparr>]) ''shop:orders'' = Some p
    \<and> map_of (useForceLayout
        [\<lparr>node_id = ''orders'', node_label = ''orders'', node_row_count = 10, node_service = ''shop''\<rparr>,
         \<lparr>node_id = ''customers'', node_label = ''customers'', node_row_count = 4, node_service = ''shop''\<rparr>,
         \<lparr>node_id = ''products'', node_label = ''products'', node_row_count = 7, node_service = ''shop''\<rparr>]
        [\<lparr>edge_source = ''orders'', edge_target = ''customers'', edge_source_column = ''customer_id'',
          edge_target_column = ''id'', edge_service = ''shop'', edge_inferred = False\<rparr>]) ''shop:customers'' = Some q
    \<and> map_of (useForceLayout
        [\<lparr>node_id = ''orders'', node_label = ''orders'', node_row_count = 10, node_service = ''shop''\<rparr>,
         \<lparr>node_id = ''customers'', node_label = ''customers'', node_row_count = 4, node_service = ''shop''\<rparr>,
         \<lparr>node_id = ''products'', node_label = ''products'', node_row_count = 7, node_service = ''shop''\<rparr>]
        [\<lparr>edge_source = ''orders'', edge_target = ''customers'', edge_source_column = ''customer_id'',
          edge_target_column = ''id'', edge_service = ''shop'', edge_inferred = False\<rparr>]) ''shop:products'' = Some r
    \<and> \<bar>distance p q - 352\<bar> \<le> 352 / 10
    \<and> 352 + 352 / 10 < distance p r
    \<and> 352 + 352 / 10 < distance q r)"
proof -
  let ?a = "\<lparr>node_id = ''orders'', node_label = ''orders'', node_row_count = 10, node_service = ''shop''\<rparr>"
  let ?b = "\<lparr>node_id = ''customers'', node_label = ''customers'', node_row_count = 4, node_service = ''shop''\<rparr>"
  let ?c = "\<lparr>node_id = ''products'', node_label = ''products'', node_row_count = 7, node_service = ''shop''\<rparr>"
  let ?e = "\<lparr>edge_source = ''orders'', edge_target = ''customers'', edge_source_column = ''customer_id'',
             edge_target_column = ''id'', edge_service = ''shop'', edge_inferred = False\<rparr>"
  have ka: "node_key ?a = ''shop:orders''" and kb: "node_key ?b = ''shop:customers''"
    and kc: "node_key ?c = ''shop:products''"
    and sk: "source_key ?e = ''shop:orders''" and tk: "target_key ?e = ''shop:customers''"
    by (simp_all add: node_key_def source_key_def target_key_def composite_key_def)
  have gap: "GAP * (16 / 10) = 352"
    by (simp add: GAP_def)
  have two: "node_key ?a \<noteq> node_key ?b
      \<and> ((source_key ?e = node_key ?a \<and> target_key ?e = node_key ?b)
           \<or> (source_key ?e = node_key ?b \<and> target_key ?e = node_key ?a))"
    by (simp add: ka kb sk tk)
  have three: "distinct [node_key ?a, node_key ?b, node_key ?c]
      \<and> source_key ?e = node_key ?a \<and> target_key ?e = node_key ?b"
    by (simp add: ka kb kc sk tk)
  from two three connected_nodes_at_spring_length [of ?a ?b ?e ?c] show ?thesis
    unfolding ka kb kc gap by blast
qed
end
